theory Spec2Isabelle
  imports Main "HOL-Library.Word"
begin

unbundle bit_operations_syntax

section \<open>Bytes, formats and serializable types\<close>

text \<open>
  A byte is the C++ \<open>byte_t\<close> (an unsigned 8-bit integer). The byte order and the signed
  representation are the two enumerations of \<open>upd/format.hpp\<close>, with the enumerator names
  that \<open>unaligned_data.hpp\<close> switches on.
\<close>

type_synonym byte_t = "8 word"

datatype endianess = LITTLE | BIG

datatype signed_mode = ONE_COMPLEMENT | TWO_COMPLEMENT

text \<open>
  The serializable types: an unsigned or a signed integer of a given \<open>sizeof\<close> in bytes, and
  a bounded array \<open>T[k]\<close>. A C++ value of such a type is an integer or a list of elements.
  The source is statically typed; in the model \<open>representable\<close> says that a value is one
  of a type, and \<open>has_type\<close> that a signed representation of the wire has a pattern for it.
\<close>

datatype ctype = Unsigned nat | Signed nat | Array ctype nat

datatype cval = VInt int | VArr "cval list"

primrec sizeof :: "ctype \<Rightarrow> nat" where
  "sizeof (Unsigned n) = n"
| "sizeof (Signed n) = n"
| "sizeof (Array t k) = k * sizeof t"

text \<open>Integer types are 1 to 8 bytes wide (\<open>unsigned long long\<close> is the widest).\<close>

primrec ctype_ok :: "ctype \<Rightarrow> bool" where
  "ctype_ok (Unsigned n) = (1 \<le> n \<and> n \<le> 8)"
| "ctype_ok (Signed n) = (1 \<le> n \<and> n \<le> 8)"
| "ctype_ok (Array t k) = ctype_ok t"

definition the_int :: "cval \<Rightarrow> int" where
  "the_int v = (case v of VInt x \<Rightarrow> x | VArr _ \<Rightarrow> 0)"

definition elem_at :: "cval \<Rightarrow> nat \<Rightarrow> cval" where
  "elem_at v i = (case v of VInt _ \<Rightarrow> VInt 0 | VArr vs \<Rightarrow> vs ! i)"

text \<open>
  The values a type can hold on the wire. A signed integer of \<open>n\<close> bytes holds
  \<open>- 2 ^ (8 n - 1)\<close> in two's complement only: one's complement has no pattern for it.
\<close>

primrec has_type :: "signed_mode \<Rightarrow> ctype \<Rightarrow> cval \<Rightarrow> bool" where
  "has_type m (Unsigned n) v = (case v of VInt x \<Rightarrow> 0 \<le> x \<and> x < 2 ^ (8 * n) | VArr _ \<Rightarrow> False)"
| "has_type m (Signed n) v =
     (case v of
        VInt x \<Rightarrow>
          (case m of
             TWO_COMPLEMENT \<Rightarrow> - (2 ^ (8 * n - 1)) \<le> x \<and> x < 2 ^ (8 * n - 1)
           | ONE_COMPLEMENT \<Rightarrow> - (2 ^ (8 * n - 1)) < x \<and> x < 2 ^ (8 * n - 1))
      | VArr _ \<Rightarrow> False)"
| "has_type m (Array t k) v =
     (case v of VInt _ \<Rightarrow> False | VArr vs \<Rightarrow> length vs = k \<and> list_all (has_type m t) vs)"

text \<open>
  The values of the type \<open>T\<close> itself, whatever the representation on the wire: a
  fixed-width signed integer type of \<open>n\<close> bytes is two's complement and holds
  \<open>- 2 ^ (8 n - 1)\<close>.
\<close>

definition representable :: "ctype \<Rightarrow> cval \<Rightarrow> bool" where
  "representable t v = has_type TWO_COMPLEMENT t v"

section \<open>Unaligned storage (\<open>upd/storage/unaligned_data.hpp\<close>)\<close>

record unaligned_data =
  m_raw_data :: "byte_t list"
  m_endianess :: endianess
  m_signed_mode :: signed_mode

text \<open>
  \<open>interpret_with_endianess<T>(offset, n)\<close>: the loop ORs byte \<open>i\<close>, shifted by \<open>8 i\<close>,
  into a \<open>T\<close>; \<open>tsize\<close> is \<open>sizeof(T)\<close> and the assignment to the \<open>T\<close> truncates.
  The source checks no bounds; the theorems below use it inside the buffer only.
\<close>

definition interpret_with_endianess :: "nat \<Rightarrow> unaligned_data \<Rightarrow> nat \<Rightarrow> nat \<Rightarrow> nat" where
  "interpret_with_endianess tsize u offset n =
     (case m_endianess u of
        LITTLE \<Rightarrow>
          fold (\<lambda>i retval. (retval OR push_bit (8 * i) (unat (m_raw_data u ! (offset + i))))
                  mod 2 ^ (8 * tsize)) [0..<n] 0
      | BIG \<Rightarrow>
          fold (\<lambda>i retval. (retval OR push_bit (8 * i) (unat (m_raw_data u ! (offset + (n - i - 1)))))
                  mod 2 ^ (8 * tsize)) [0..<n] 0)"

text \<open>\<open>write_with_endianess(x, offset, n)\<close>: stores \<open>x & 0xff\<close> and shifts \<open>x\<close> right by 8.\<close>

definition write_with_endianess :: "unaligned_data \<Rightarrow> nat \<Rightarrow> nat \<Rightarrow> nat \<Rightarrow> unaligned_data" where
  "write_with_endianess u x offset n =
     (case m_endianess u of
        LITTLE \<Rightarrow>
          fst (fold (\<lambda>i (u', x'). (u'\<lparr>m_raw_data := (m_raw_data u')[offset + i := of_nat (x' AND 255)]\<rparr>,
                                    drop_bit 8 x')) [0..<n] (u, x))
      | BIG \<Rightarrow>
          fst (fold (\<lambda>i (u', x'). (u'\<lparr>m_raw_data := (m_raw_data u')[offset + (n - i - 1) := of_nat (x' AND 255)]\<rparr>,
                                    drop_bit 8 x')) [0..<n] (u, x)))"

text \<open>
  Modelled from the spec: \<open>detail::interpret_to_one_complement\<close>,
  \<open>detail::interpret_to_two_complement\<close>, \<open>detail::interpret_from_one_complement\<close> and
  \<open>detail::interpret_from_two_complement\<close> (\<open>detail/signed_representation.hpp\<close> is not among
  the sources). The spec: in two's complement the pattern is the usual modular
  interpretation; in one's complement a negative value is the bitwise inverse of its
  absolute value. The pattern is an \<open>unsigned long long\<close> (64 bits); \<open>n\<close> is \<open>sizeof(T)\<close>.
\<close>

definition interpret_to_two_complement :: "int \<Rightarrow> nat" where
  "interpret_to_two_complement x = nat (x mod 2 ^ 64)"

definition interpret_to_one_complement :: "int \<Rightarrow> nat" where
  "interpret_to_one_complement x =
     (if 0 \<le> x then nat (x mod 2 ^ 64) else 2 ^ 64 - 1 - nat ((- x) mod 2 ^ 64))"

definition interpret_from_two_complement :: "nat \<Rightarrow> nat \<Rightarrow> int" where
  "interpret_from_two_complement n tmp =
     (let p = tmp mod 2 ^ (8 * n)
      in if 2 ^ (8 * n - 1) \<le> p then int p - 2 ^ (8 * n) else int p)"

definition interpret_from_one_complement :: "nat \<Rightarrow> nat \<Rightarrow> int" where
  "interpret_from_one_complement n tmp =
     (let p = tmp mod 2 ^ (8 * n)
      in if 2 ^ (8 * n - 1) \<le> p then - int (2 ^ (8 * n) - 1 - p) else int p)"

text \<open>
  \<open>interpret_as<T>(offset)\<close>, one equation per overload: unsigned integer, signed integer
  (read into an \<open>unsigned long long\<close>, 8 bytes, then converted) and array. The
  \<open>default\<close> branch of the switch on the signed mode (a representation that is not
  supported) has no enumerator in \<open>signed_mode\<close> here; the same holds for \<open>write\<close>.
\<close>

primrec interpret_as :: "ctype \<Rightarrow> unaligned_data \<Rightarrow> nat \<Rightarrow> cval" where
  "interpret_as (Unsigned n) u offset = VInt (int (interpret_with_endianess n u offset n))"
| "interpret_as (Signed n) u offset =
     (let tmp = interpret_with_endianess 8 u offset n
      in case m_signed_mode u of
           ONE_COMPLEMENT \<Rightarrow> VInt (interpret_from_one_complement n tmp)
         | TWO_COMPLEMENT \<Rightarrow> VInt (interpret_from_two_complement n tmp))"
| "interpret_as (Array t k) u offset =
     VArr (map (\<lambda>i. interpret_as t u (offset + i * sizeof t)) [0..<k])"

text \<open>\<open>write(x, offset)\<close> (named \<open>write_at\<close> here), one equation per overload.\<close>

primrec write_at :: "ctype \<Rightarrow> unaligned_data \<Rightarrow> cval \<Rightarrow> nat \<Rightarrow> unaligned_data" where
  "write_at (Unsigned n) u x offset = write_with_endianess u (nat (the_int x)) offset n"
| "write_at (Signed n) u x offset =
     (let tmp = (case m_signed_mode u of
                   ONE_COMPLEMENT \<Rightarrow> interpret_to_one_complement (the_int x)
                 | TWO_COMPLEMENT \<Rightarrow> interpret_to_two_complement (the_int x))
      in write_with_endianess u tmp offset n)"
| "write_at (Array t k) u x offset =
     fold (\<lambda>i u'. write_at t u' (elem_at x i) (offset + i * sizeof t)) [0..<k] u"

section \<open>Serialization (\<open>upd/serialization.hpp\<close>)\<close>

text \<open>
  A pointer \<open>byte_t *sequence\<close> is a byte array and an offset into it;
  \<open>sequence + i * sizeof(element_t)\<close> moves the offset.

  Modelled from the spec: \<open>detail::from_endianess\<close> and \<open>detail::to_endianess\<close>
  (\<open>detail/endianess.hpp\<close> is not among the sources). The spec: an unsigned integer is
  \<open>size(T)\<close> octets, least-significant first if \<open>LITTLE\<close>, most-significant first if
  \<open>BIG\<close>; these are the two loops of \<open>unaligned_data\<close> above, run on the sequence.
\<close>

definition from_endianess :: "endianess \<Rightarrow> nat \<Rightarrow> byte_t list \<Rightarrow> nat \<Rightarrow> nat \<Rightarrow> nat" where
  "from_endianess e tsize sequence offset n =
     interpret_with_endianess tsize
       \<lparr>m_raw_data = sequence, m_endianess = e, m_signed_mode = TWO_COMPLEMENT\<rparr> offset n"

definition to_endianess :: "endianess \<Rightarrow> byte_t list \<Rightarrow> nat \<Rightarrow> nat \<Rightarrow> nat \<Rightarrow> byte_t list" where
  "to_endianess e sequence offset x n =
     m_raw_data (write_with_endianess
       \<lparr>m_raw_data = sequence, m_endianess = e, m_signed_mode = TWO_COMPLEMENT\<rparr> x offset n)"

text \<open>
  Modelled from the spec: \<open>detail::to_signed_mode\<close> and \<open>detail::from_signed_mode\<close>
  (\<open>detail/signed_representation.hpp\<close> is not among the sources): the mapping between
  a signed value and its unsigned pattern, per signed mode, as above.
\<close>

definition to_signed_mode :: "signed_mode \<Rightarrow> int \<Rightarrow> nat" where
  "to_signed_mode m x =
     (case m of
        ONE_COMPLEMENT \<Rightarrow> interpret_to_one_complement x
      | TWO_COMPLEMENT \<Rightarrow> interpret_to_two_complement x)"

definition from_signed_mode :: "signed_mode \<Rightarrow> nat \<Rightarrow> nat \<Rightarrow> int" where
  "from_signed_mode m n tmp =
     (case m of
        ONE_COMPLEMENT \<Rightarrow> interpret_from_one_complement n tmp
      | TWO_COMPLEMENT \<Rightarrow> interpret_from_two_complement n tmp)"

text \<open>\<open>read_as<T, Endianess, Signed_Mode>(sequence)\<close>, one equation per overload.\<close>

primrec read_as :: "ctype \<Rightarrow> endianess \<Rightarrow> signed_mode \<Rightarrow> byte_t list \<Rightarrow> nat \<Rightarrow> cval" where
  "read_as (Unsigned n) e m sequence offset = VInt (int (from_endianess e n sequence offset n))"
| "read_as (Signed n) e m sequence offset =
     (let tmp = from_endianess e 8 sequence offset n
      in VInt (from_signed_mode m n tmp))"
| "read_as (Array t k) e m sequence offset =
     VArr (map (\<lambda>i. read_as t e m sequence (offset + i * sizeof t)) [0..<k])"

text \<open>
  \<open>write_as<Endianess, Signed_Mode>(x, sequence)\<close>, one equation per overload; the result
  is the array written to.
\<close>

primrec write_as :: "ctype \<Rightarrow> endianess \<Rightarrow> signed_mode \<Rightarrow> cval \<Rightarrow> byte_t list \<Rightarrow> nat \<Rightarrow> byte_t list" where
  "write_as (Unsigned n) e m x sequence offset = to_endianess e sequence offset (nat (the_int x)) n"
| "write_as (Signed n) e m x sequence offset =
     (let tmp = to_signed_mode m (the_int x)
      in to_endianess e sequence offset tmp n)"
| "write_as (Array t k) e m x sequence offset =
     fold (\<lambda>i s. write_as t e m (elem_at x i) s (offset + i * sizeof t)) [0..<k] sequence"

section \<open>Tuple (\<open>upd/storage/tuple.hpp\<close>)\<close>

record tuple =
  typelist :: "ctype list"
  m_storage :: unaligned_data

definition type_sizes :: "ctype list \<Rightarrow> nat list" where
  "type_sizes tys = map sizeof tys"

text \<open>\<open>tuple::size\<close>: \<open>mp_fold<type_sizes, mp_size_t<0>, mp_plus>\<close>, a left fold.\<close>

definition tuple_size :: "ctype list \<Rightarrow> nat" where
  "tuple_size tys = foldl (+) 0 (type_sizes tys)"

text \<open>The \<open>offset\<close> of \<open>get<I>\<close> and \<open>set<I>\<close>: \<open>mp_fold<mp_take_c<type_sizes, I>, mp_size_t<0>, mp_plus>\<close>.\<close>

definition field_offset :: "ctype list \<Rightarrow> nat \<Rightarrow> nat" where
  "field_offset tys I = foldl (+) 0 (take I (type_sizes tys))"

definition tuple_get :: "nat \<Rightarrow> tuple \<Rightarrow> cval" where
  "tuple_get I t = interpret_as (typelist t ! I) (m_storage t) (field_offset (typelist t) I)"

definition tuple_set :: "nat \<Rightarrow> cval \<Rightarrow> tuple \<Rightarrow> tuple" where
  "tuple_set I v t =
     t\<lparr>m_storage := write_at (typelist t ! I) (m_storage t) v (field_offset (typelist t) I)\<rparr>"

text \<open>
  The constructors. The first leaves the storage uninitialised (zero bytes in the model);
  the second calls \<open>lay\<close>, which sets every field in index order.
\<close>

definition tuple_default :: "endianess \<Rightarrow> signed_mode \<Rightarrow> ctype list \<Rightarrow> tuple" where
  "tuple_default e m tys =
     \<lparr>typelist = tys,
      m_storage = \<lparr>m_raw_data = replicate (tuple_size tys) 0, m_endianess = e, m_signed_mode = m\<rparr>\<rparr>"

definition lay :: "cval list \<Rightarrow> tuple \<Rightarrow> tuple" where
  "lay args t = fold (\<lambda>I t'. tuple_set I (args ! I) t') [0..<length (typelist t)] t"

definition make_tuple :: "endianess \<Rightarrow> signed_mode \<Rightarrow> ctype list \<Rightarrow> cval list \<Rightarrow> tuple" where
  "make_tuple e m tys args = lay args (tuple_default e m tys)"

section \<open>Actions (\<open>upd/action.hpp\<close>)\<close>

text \<open>
  A byte getter (\<open>src_t\<close>) is a callable with a state of its own: one call yields a byte
  and the next state. \<open>None\<close> stands for a getter that reads past an array (undefined
  behaviour in the source). A byte putter (\<open>dest_t\<close>) is modelled by the list of the
  bytes it has received, so that a call appends one byte.
\<close>

type_synonym 'g src_t = "'g \<Rightarrow> (byte_t \<times> 'g) option"

text \<open>The loop \<open>for (auto &byte : input_args) byte = src();\<close> over a storage of \<open>n\<close> bytes.\<close>

fun fill_from :: "'g src_t \<Rightarrow> nat \<Rightarrow> 'g \<Rightarrow> (byte_t list \<times> 'g) option" where
  "fill_from src 0 g = Some ([], g)"
| "fill_from src (Suc n) g =
     (case src g of
        None \<Rightarrow> None
      | Some (b, g1) \<Rightarrow>
          (case fill_from src n g1 of
             None \<Rightarrow> None
           | Some (bs, g2) \<Rightarrow> Some (b # bs, g2)))"

text \<open>
  An action wraps a callable of signature \<open>ret(params...)\<close>; \<open>ret = None\<close> is \<open>void\<close>.
  (A default-constructed \<open>action\<close> holds no callable and does nothing when called; a
  dispatcher makes every action of its array from the keyring, so none is of that kind.)
  \<open>input_size\<close> is \<open>tuple_t::size\<close> of the parameters' tuple, \<open>output_size\<close> the size of the
  tuple that holds the return value (nothing for \<open>void\<close>).
\<close>

record action =
  params :: "ctype list"
  ret :: "ctype option"
  ftor :: "cval list \<Rightarrow> cval"

definition input_size :: "action \<Rightarrow> nat" where
  "input_size a = tuple_size (params a)"

definition output_size :: "action \<Rightarrow> nat" where
  "output_size a = (case ret a of None \<Rightarrow> 0 | Some t \<Rightarrow> tuple_size [t])"

text \<open>
  Modelled from the spec: \<open>tuple::invoke\<close> (the \<open>tuple.hpp\<close> among the sources has no
  \<open>invoke\<close>). The spec: expand the tuple as positional arguments to a callable and return
  what it returns.
\<close>

definition tuple_invoke :: "tuple \<Rightarrow> (cval list \<Rightarrow> 'r) \<Rightarrow> 'r" where
  "tuple_invoke t f = f (map (\<lambda>I. tuple_get I t) [0..<length (typelist t)])"

text \<open>\<open>detail::insert\<close>: serialize the value into a tuple and call \<open>dest\<close> on every byte of it.\<close>

definition insert_value :: "endianess \<Rightarrow> signed_mode \<Rightarrow> ctype \<Rightarrow> cval \<Rightarrow> byte_t list \<Rightarrow> byte_t list" where
  "insert_value e m t v dest = dest @ m_raw_data (m_storage (make_tuple e m [t] [v]))"

text \<open>
  \<open>detail::call<Tuple>(src, dest, ftor)\<close>, the overload for a \<open>void\<close> return and the one
  for a value: fill the parameters' tuple from \<open>src\<close>, invoke, insert the result.
\<close>

definition call :: "endianess \<Rightarrow> signed_mode \<Rightarrow> action \<Rightarrow> 'g src_t \<Rightarrow> 'g \<Rightarrow> byte_t list
    \<Rightarrow> ('g \<times> byte_t list) option" where
  "call e m a src g dest =
     (case fill_from src (tuple_size (params a)) g of
        None \<Rightarrow> None
      | Some (bytes, g1) \<Rightarrow>
          (let input_args =
                 \<lparr>typelist = params a,
                  m_storage = \<lparr>m_raw_data = bytes, m_endianess = e, m_signed_mode = m\<rparr>\<rparr>
           in case ret a of
                None \<Rightarrow> Some (g1, dest)
              | Some t \<Rightarrow> Some (g1, insert_value e m t (tuple_invoke input_args (ftor a)) dest)))"

section \<open>Dispatcher (\<open>upd/dispatcher.hpp\<close>)\<close>

record dispatcher =
  m_actions :: "action list"
  d_endianess :: endianess
  d_signed_mode :: signed_mode

text \<open>\<open>dispatcher::size\<close>, the number of actions of the keyring.\<close>

definition dsize :: "dispatcher \<Rightarrow> nat" where
  "dsize d = length (m_actions d)"

text \<open>
  Modelled from the spec: \<open>keyring::index_t\<close> (\<open>keyring.hpp\<close> is not among the sources).
  The spec: the smallest unsigned integer type capable of holding the values \<open>0..N-1\<close>,
  \<open>u8\<close> up to 256 actions, \<open>u16\<close> up to 65536.
\<close>

definition sizeof_index_t :: "nat \<Rightarrow> nat" where
  "sizeof_index_t N =
     (if N \<le> 2 ^ 8 then 1 else if N \<le> 2 ^ 16 then 2 else if N \<le> 2 ^ 32 then 4 else 8)"

definition index_size :: "dispatcher \<Rightarrow> nat" where
  "index_size d = sizeof_index_t (dsize d)"

text \<open>\<open>get_index\<close>: fill a \<open>tuple<index_t>\<close> from \<open>src\<close> and return \<open>get<0>\<close> of it.\<close>

definition get_index :: "dispatcher \<Rightarrow> 'g src_t \<Rightarrow> 'g \<Rightarrow> (nat \<times> 'g) option" where
  "get_index d src g =
     (case fill_from src (tuple_size [Unsigned (index_size d)]) g of
        None \<Rightarrow> None
      | Some (bytes, g1) \<Rightarrow>
          Some (nat (the_int (tuple_get 0
                  \<lparr>typelist = [Unsigned (index_size d)],
                   m_storage = \<lparr>m_raw_data = bytes, m_endianess = d_endianess d,
                                m_signed_mode = d_signed_mode d\<rparr>\<rparr>)), g1))"

text \<open>\<open>dispatcher::operator()(src, dest)\<close>; the result is the index, the getter and the putter.\<close>

definition dispatch :: "dispatcher \<Rightarrow> 'g src_t \<Rightarrow> 'g \<Rightarrow> byte_t list \<Rightarrow> (nat \<times> 'g \<times> byte_t list) option" where
  "dispatch d src g dest =
     (case get_index d src g of
        None \<Rightarrow> None
      | Some (index, g1) \<Rightarrow>
          if index < dsize d
          then (case call (d_endianess d) (d_signed_mode d) (m_actions d ! index) src g1 dest of
                  None \<Rightarrow> None
                | Some (g2, dest2) \<Rightarrow> Some (index, g2, dest2))
          else Some (index, g1, dest))"

section \<open>Buffer sizes (\<open>upd/buffered_undispatcher.hpp\<close>, namespace \<open>detail\<close>)\<close>

type_synonym signature_t = "ctype list \<times> ctype option"

definition signatures_t :: "dispatcher \<Rightarrow> signature_t list" where
  "signatures_t d = map (\<lambda>a. (params a, ret a)) (m_actions d)"

text \<open>
  Modelled from the spec: \<open>detail::parameters_size\<close>, \<open>detail::return_type_size\<close>,
  \<open>detail::map_parameters_size\<close>, \<open>detail::max\<close> and \<open>detail::max_p\<close> (the headers
  \<open>detail/type_traits/signature.hpp\<close> and \<open>typelist.hpp\<close> are not among the sources).
  \<open>no_storage_action\<close> takes its \<open>m_input_size\<close> from \<open>parameters_size\<close> and its
  \<open>m_output_size\<close> from \<open>return_type_size\<close>; \<open>max\<close> is the largest element of a list of
  sizes, \<open>max_p\<close> the larger of two.
\<close>

definition parameters_size :: "signature_t \<Rightarrow> nat" where
  "parameters_size sg = tuple_size (fst sg)"

definition return_type_size :: "signature_t \<Rightarrow> nat" where
  "return_type_size sg = (case snd sg of None \<Rightarrow> 0 | Some t \<Rightarrow> tuple_size [t])"

definition map_parameters_size :: "signature_t list \<Rightarrow> nat list" where
  "map_parameters_size sgs = map parameters_size sgs"

definition max_of :: "nat list \<Rightarrow> nat" where
  "max_of xs = foldr max xs 0"

definition max_p :: "nat \<Rightarrow> nat \<Rightarrow> nat" where
  "max_p a b = (if a < b then b else a)"

text \<open>The two aliases of the source, as they are written there.\<close>

definition needed_input_buffer_size :: "dispatcher \<Rightarrow> nat" where
  "needed_input_buffer_size d = max_of (map_parameters_size (signatures_t d)) + index_size d"

definition needed_output_buffer_size :: "dispatcher \<Rightarrow> nat" where
  "needed_output_buffer_size d = max_of (map_parameters_size (signatures_t d))"

text \<open>\<open>single_buffered_undispatcher::buffer_size\<close> and the two sizes of the double one.\<close>

definition buffer_size :: "dispatcher \<Rightarrow> nat" where
  "buffer_size d = max_p (needed_input_buffer_size d) (needed_output_buffer_size d)"

definition input_buffer_size :: "dispatcher \<Rightarrow> nat" where
  "input_buffer_size d = needed_input_buffer_size d"

definition output_buffer_size :: "dispatcher \<Rightarrow> nat" where
  "output_buffer_size d = needed_output_buffer_size d"

section \<open>Buffered dispatcher (\<open>upd/buffered_undispatcher.hpp\<close>)\<close>

datatype packet_status = LOADING_PACKET | DROPPED_PACKET | RESOLVED_PACKET

text \<open>
  The derived classes own the storage: \<open>single_buffered_undispatcher\<close> has one array
  \<open>m_buf\<close> that \<open>ibuf_begin()\<close> and \<open>obuf_begin()\<close> both return,
  \<open>double_buffered_undispatcher\<close> has \<open>m_ibuf\<close> and \<open>m_obuf\<close>.
\<close>

datatype buffers = Single_buf "byte_t list" | Double_buf "byte_t list" "byte_t list"

primrec ibuf :: "buffers \<Rightarrow> byte_t list" where
  "ibuf (Single_buf m_buf) = m_buf"
| "ibuf (Double_buf m_ibuf m_obuf) = m_ibuf"

primrec obuf :: "buffers \<Rightarrow> byte_t list" where
  "obuf (Single_buf m_buf) = m_buf"
| "obuf (Double_buf m_ibuf m_obuf) = m_obuf"

text \<open>
  A store through \<open>ibuf_begin()[i]\<close>. The source checks no bounds; a store past the array
  is undefined behaviour, \<open>None\<close> in the model.
\<close>

primrec ibuf_store :: "buffers \<Rightarrow> nat \<Rightarrow> byte_t \<Rightarrow> buffers option" where
  "ibuf_store (Single_buf m_buf) i b =
     (if i < length m_buf then Some (Single_buf (m_buf[i := b])) else None)"
| "ibuf_store (Double_buf m_ibuf m_obuf) i b =
     (if i < length m_ibuf then Some (Double_buf (m_ibuf[i := b]) m_obuf) else None)"

record bstate =
  m_is_index_loaded :: bool
  m_load_count :: nat
  m_ibuf_next :: nat
  m_obuf_next :: nat
  m_obuf_bottom :: nat
  m_bufs :: buffers

definition is_loaded :: "bstate \<Rightarrow> bool" where
  "is_loaded s = (m_obuf_next s \<noteq> m_obuf_bottom s)"

text \<open>
  \<open>get()\<close>: \<open>is_loaded() ? obuf_begin()[m_obuf_next++] : byte_t{}\<close>. A read past the
  array is undefined behaviour, \<open>None\<close> in the model.
\<close>

definition get :: "bstate \<Rightarrow> (byte_t \<times> bstate) option" where
  "get s =
     (if is_loaded s
      then (if m_obuf_next s < length (obuf (m_bufs s))
            then Some (obuf (m_bufs s) ! m_obuf_next s, s\<lparr>m_obuf_next := m_obuf_next s + 1\<rparr>)
            else None)
      else Some (0, s))"

text \<open>
  The constructors. The arrays are not initialised: their first contents are a parameter
  \<open>mem\<close>, and their lengths are the sizes the class declares.
\<close>

definition buffered_undispatcher :: "dispatcher \<Rightarrow> buffers \<Rightarrow> bstate" where
  "buffered_undispatcher d bufs =
     \<lparr>m_is_index_loaded = False, m_load_count = index_size d, m_ibuf_next = 0,
      m_obuf_next = 0, m_obuf_bottom = 0, m_bufs = bufs\<rparr>"

definition single_buffered_undispatcher :: "dispatcher \<Rightarrow> (nat \<Rightarrow> byte_t) \<Rightarrow> bstate" where
  "single_buffered_undispatcher d mem =
     buffered_undispatcher d (Single_buf (map mem [0..<buffer_size d]))"

definition double_buffered_undispatcher :: "dispatcher \<Rightarrow> (nat \<Rightarrow> byte_t) \<Rightarrow> (nat \<Rightarrow> byte_t) \<Rightarrow> bstate" where
  "double_buffered_undispatcher d imem omem =
     buffered_undispatcher d
       (Double_buf (map imem [0..<input_buffer_size d]) (map omem [0..<output_buffer_size d]))"

text \<open>\<open>--m_load_count\<close> on a \<open>std::size_t\<close> of 64 bits: zero wraps around.\<close>

definition dec_size_t :: "nat \<Rightarrow> nat" where
  "dec_size_t n = (if n = 0 then 2 ^ 64 - 1 else n - 1)"

text \<open>The getter \<open>[&]() { return *ibuf_ptr++; }\<close> over an array; its state is the position.\<close>

definition buf_getter :: "byte_t list \<Rightarrow> nat src_t" where
  "buf_getter buf p = (if p < length buf then Some (buf ! p, p + 1) else None)"

text \<open>\<open>put(byte)\<close>, branch by branch as in the source.\<close>

definition put :: "dispatcher \<Rightarrow> byte_t \<Rightarrow> bstate \<Rightarrow> (packet_status \<times> bstate) option" where
  "put d byte s =
     (case ibuf_store (m_bufs s) (m_ibuf_next s) byte of
        None \<Rightarrow> None
      | Some bs \<Rightarrow>
          (let s1 = s\<lparr>m_bufs := bs, m_ibuf_next := m_ibuf_next s + 1,
                      m_load_count := dec_size_t (m_load_count s)\<rparr>
           in if m_load_count s1 > 0 then Some (LOADING_PACKET, s1)
              else if m_is_index_loaded s1
              then Some (RESOLVED_PACKET,
                         s1\<lparr>m_is_index_loaded := False, m_load_count := index_size d, m_ibuf_next := 0\<rparr>)
              else (case get_index d (buf_getter (ibuf bs)) 0 of
                      None \<Rightarrow> None
                    | Some (index, p) \<Rightarrow>
                        if index < dsize d
                        then (let s2 = s1\<lparr>m_load_count := input_size (m_actions d ! index),
                                          m_is_index_loaded := True\<rparr>
                              in if m_load_count s2 = 0
                                 then Some (RESOLVED_PACKET,
                                            s2\<lparr>m_is_index_loaded := False, m_load_count := index_size d,
                                               m_ibuf_next := 0\<rparr>)
                                 else Some (LOADING_PACKET, s2))
                        else Some (DROPPED_PACKET,
                                   s1\<lparr>m_is_index_loaded := False, m_load_count := index_size d,
                                      m_ibuf_next := 0\<rparr>))))"

text \<open>A sequence of \<open>put\<close> calls, one per byte; the statuses are dropped.\<close>

fun puts :: "dispatcher \<Rightarrow> byte_t list \<Rightarrow> bstate \<Rightarrow> bstate option" where
  "puts d [] s = Some s"
| "puts d (b # bs) s = (case put d b s of None \<Rightarrow> None | Some (st, s1) \<Rightarrow> puts d bs s1)"

text \<open>
  \<open>write_to(dest)\<close>: \<open>while (is_loaded()) dest(get());\<close>. The result is the bytes handed
  to \<open>dest\<close>, in order, and the state. The loop ends: each turn moves \<open>m_obuf_next\<close>
  towards the end of the output array, where the model's \<open>get\<close> stops.
\<close>

function write_to :: "bstate \<Rightarrow> (byte_t list \<times> bstate) option" where
  "write_to s =
     (if is_loaded s
      then (case get s of
              None \<Rightarrow> None
            | Some (b, s1) \<Rightarrow>
                (case write_to s1 of
                   None \<Rightarrow> None
                 | Some (bs, s2) \<Rightarrow> Some (b # bs, s2)))
      else Some ([], s))"
  by pat_completeness auto
termination
  by (relation "measure (\<lambda>s. length (obuf (m_bufs s)) - m_obuf_next s)")
     (auto simp: get_def split: if_splits)

declare write_to.simps [simp del]

text \<open>
  A key of a foreign keyring, as far as \<open>reply\<close> uses it (\<open>key.hpp\<close> is not among the
  sources): \<open>sizeof k.index\<close>, \<open>k.payload_length\<close>, and the bytes that
  \<open>k(buf).write_to(output)\<close> hands to \<open>output\<close> for a byte buffer \<open>buf\<close>.
\<close>

record key =
  k_index_size :: nat
  k_payload_length :: nat
  k_request :: "byte_t list \<Rightarrow> byte_t list"

text \<open>
  \<open>reply(output, k)\<close>. \<open>buf0\<close> is the first content of the local \<open>buf_t buf\<close>, which the
  source does not initialise; \<open>write_to(std::begin(buf))\<close> overwrites its first bytes.
\<close>

definition reply :: "key \<Rightarrow> byte_t list \<Rightarrow> bstate \<Rightarrow> byte_t list \<Rightarrow> (bool \<times> bstate \<times> byte_t list) option" where
  "reply k buf0 s output =
     (let buf_size = k_payload_length k - k_index_size k
      in if \<not> (m_obuf_next s = 0 \<and> m_obuf_bottom s \<le> buf_size) then Some (False, s, output)
         else (case write_to s of
                 None \<Rightarrow> None
               | Some (bytes, s1) \<Rightarrow>
                   (let buf = bytes @ drop (length bytes) buf0
                    in Some (True, s1, output @ k_request k buf))))"

section \<open>The older buffered dispatcher (\<open>k2o/buffered_dispatcher.hpp\<close>)\<close>

text \<open>
  \<open>k2o::buffered_dispatcher\<close> holds iterators into buffers that its user provides; an
  iterator is the offset from the start of its buffer, and the two buffers may be the
  same array (\<open>Single_buf\<close>). Its orders are the actions above, and its \<open>get_index\<close>
  (\<open>k2o/dispatcher.hpp\<close>) fills an array of \<open>sizeof(Index)\<close> bytes and decodes it with
  \<open>upd::read_as\<close>.
\<close>

definition k2o_get_index :: "dispatcher \<Rightarrow> 'g src_t \<Rightarrow> 'g \<Rightarrow> (nat \<times> 'g) option" where
  "k2o_get_index d src g =
     (case fill_from src (index_size d) g of
        None \<Rightarrow> None
      | Some (index_buf, g1) \<Rightarrow>
          Some (nat (the_int (read_as (Unsigned (index_size d)) (d_endianess d) (d_signed_mode d)
                                index_buf 0)), g1))"

text \<open>
  The putter \<open>[&](upd::byte_t byte) { *m_obuf_bottom++ = byte; }\<close>, called on each byte of
  a list: the result is the buffers and the new \<open>m_obuf_bottom\<close>. A store past the array
  is undefined behaviour, \<open>None\<close>.
\<close>

primrec obuf_store :: "buffers \<Rightarrow> nat \<Rightarrow> byte_t \<Rightarrow> buffers option" where
  "obuf_store (Single_buf m_buf) i b =
     (if i < length m_buf then Some (Single_buf (m_buf[i := b])) else None)"
| "obuf_store (Double_buf m_ibuf m_obuf) i b =
     (if i < length m_obuf then Some (Double_buf m_ibuf (m_obuf[i := b])) else None)"

fun obuf_put_all :: "buffers \<Rightarrow> nat \<Rightarrow> byte_t list \<Rightarrow> (buffers \<times> nat) option" where
  "obuf_put_all bs bottom [] = Some (bs, bottom)"
| "obuf_put_all bs bottom (b # out) =
     (case obuf_store bs bottom b of
        None \<Rightarrow> None
      | Some bs1 \<Rightarrow> obuf_put_all bs1 (bottom + 1) out)"

text \<open>
  \<open>read(src_ftor)\<close> on the byte that \<open>src_ftor()\<close> returned. The order reads all its
  arguments from the input buffer before it calls the putter (\<open>detail::call\<close>), so the
  model runs \<open>call\<close> on the input buffer and then stores what it produced. In the branch
  that loads the index the source indexes the orders with no range check: an index out
  of range is undefined behaviour, \<open>None\<close>.
\<close>

definition k2o_read :: "dispatcher \<Rightarrow> byte_t \<Rightarrow> bstate \<Rightarrow> bstate option" where
  "k2o_read d byte s =
     (case ibuf_store (m_bufs s) (m_ibuf_next s) byte of
        None \<Rightarrow> None
      | Some bs \<Rightarrow>
          (let s1 = s\<lparr>m_bufs := bs, m_ibuf_next := m_ibuf_next s + 1,
                      m_load_count := dec_size_t (m_load_count s)\<rparr>
           in if m_load_count s1 \<noteq> 0 then Some s1
              else if m_is_index_loaded s1
              then (let s2 = s1\<lparr>m_is_index_loaded := False, m_load_count := index_size d,
                                m_ibuf_next := 0\<rparr>
                    in case k2o_get_index d (buf_getter (ibuf bs)) 0 of
                         None \<Rightarrow> None
                       | Some (index, ibuf_it) \<Rightarrow>
                           if index \<ge> dsize d then Some s2
                           else (case call (d_endianess d) (d_signed_mode d) (m_actions d ! index)
                                        (buf_getter (ibuf bs)) ibuf_it [] of
                                   None \<Rightarrow> None
                                 | Some (ibuf_it2, out) \<Rightarrow>
                                     (case obuf_put_all bs 0 out of
                                        None \<Rightarrow> None
                                      | Some (bs2, bottom) \<Rightarrow>
                                          Some (s2\<lparr>m_obuf_next := 0, m_obuf_bottom := bottom,
                                                   m_bufs := bs2\<rparr>))))
              else (case k2o_get_index d (buf_getter (ibuf bs)) 0 of
                      None \<Rightarrow> None
                    | Some (index, ibuf_it) \<Rightarrow>
                        if index < dsize d
                        then Some (s1\<lparr>m_is_index_loaded := True,
                                      m_load_count := input_size (m_actions d ! index)\<rparr>)
                        else None)))"

section \<open>The state machine's invariants and the scenarios of the spec\<close>

text \<open>The index that a \<open>tuple<index_t>\<close> holding \<open>bytes\<close> decodes to.\<close>

definition decoded_index :: "dispatcher \<Rightarrow> byte_t list \<Rightarrow> nat" where
  "decoded_index d bytes =
     nat (the_int (tuple_get 0
            \<lparr>typelist = [Unsigned (index_size d)],
             m_storage = \<lparr>m_raw_data = bytes, m_endianess = d_endianess d,
                          m_signed_mode = d_signed_mode d\<rparr>\<rparr>))"

text \<open>
  The state does not store the index once it is loaded: the current action is the one the
  first bytes of the input buffer decode to.
\<close>

definition current_input_size :: "dispatcher \<Rightarrow> bstate \<Rightarrow> nat option" where
  "current_input_size d s =
     (case get_index d (buf_getter (ibuf (m_bufs s))) 0 of
        None \<Rightarrow> None
      | Some (index, p) \<Rightarrow>
          if index < dsize d then Some (input_size (m_actions d ! index)) else None)"

text \<open>
  The invariants in the spec's words: \<open>ibuf_next \<le> size(input_buffer)\<close>,
  \<open>obuf_next \<le> obuf_bottom \<le> size(output_buffer)\<close>, \<open>load_count = sizeof(index_type)\<close>
  when the index is not loaded, and
  \<open>load_count + ibuf_next = sizeof(index_type) + input_size(current_action)\<close> when it is.
\<close>

definition claimed_invariants :: "dispatcher \<Rightarrow> bstate \<Rightarrow> bool" where
  "claimed_invariants d s \<longleftrightarrow>
     m_ibuf_next s \<le> length (ibuf (m_bufs s))
     \<and> m_obuf_next s \<le> m_obuf_bottom s \<and> m_obuf_bottom s \<le> length (obuf (m_bufs s))
     \<and> (\<not> m_is_index_loaded s \<longrightarrow> m_load_count s = index_size d)
     \<and> (m_is_index_loaded s \<longrightarrow>
          (case current_input_size d s of
             None \<Rightarrow> False
           | Some n \<Rightarrow> m_load_count s + m_ibuf_next s = index_size d + n))"

text \<open>
  The invariants the code keeps: while the index is not loaded, \<open>load_count\<close> counts
  the bytes of the index still to come, so \<open>load_count + ibuf_next = sizeof(index_type)\<close>.
\<close>

definition invariants :: "dispatcher \<Rightarrow> bstate \<Rightarrow> bool" where
  "invariants d s \<longleftrightarrow>
     m_ibuf_next s \<le> length (ibuf (m_bufs s))
     \<and> m_obuf_next s \<le> m_obuf_bottom s \<and> m_obuf_bottom s \<le> length (obuf (m_bufs s))
     \<and> (\<not> m_is_index_loaded s \<longrightarrow> m_load_count s + m_ibuf_next s = index_size d)
     \<and> (m_is_index_loaded s \<longrightarrow>
          (case current_input_size d s of
             None \<Rightarrow> False
           | Some n \<Rightarrow> m_load_count s + m_ibuf_next s = index_size d + n))"

text \<open>What the induction over \<open>put\<close> calls needs on top of them.\<close>

definition loading_invariants :: "dispatcher \<Rightarrow> bstate \<Rightarrow> bool" where
  "loading_invariants d s \<longleftrightarrow>
     invariants d s \<and> 1 \<le> m_load_count s
     \<and> (m_is_index_loaded s \<longrightarrow> index_size d \<le> m_ibuf_next s)
     \<and> needed_input_buffer_size d \<le> length (ibuf (m_bufs s))"

text \<open>
  Two notions for the proofs about the byte loops: the position of the byte of weight
  \<open>256 ^ i\<close> in an integer of \<open>n\<close> bytes at \<open>offset\<close>, and the number that the base-256
  digits \<open>g 0, ..., g (n - 1)\<close> denote.
\<close>

definition byte_pos :: "endianess \<Rightarrow> nat \<Rightarrow> nat \<Rightarrow> nat \<Rightarrow> nat" where
  "byte_pos e offset n i = (case e of LITTLE \<Rightarrow> offset + i | BIG \<Rightarrow> offset + (n - i - 1))"

definition digits_value :: "(nat \<Rightarrow> nat) \<Rightarrow> nat \<Rightarrow> nat" where
  "digits_value g n = (\<Sum>i<n. g i * 256 ^ i)"

text \<open>A getter that reads a stream of bytes; its state is the number of calls so far.\<close>

definition stream_getter :: "(nat \<Rightarrow> byte_t) \<Rightarrow> nat src_t" where
  "stream_getter f p = Some (f p, Suc p)"

text \<open>
  Keyrings of the spec's scenarios, little endian and two's complement: S7 has the one
  action \<open>id(u8) -> u8\<close>, S3 has 300 actions (here \<open>noop() -> void\<close>), S1 has
  \<open>add(u16, u16) -> u16\<close>. \<open>widen_dispatcher\<close> has the one action \<open>widen(u8) -> u32\<close>.
\<close>

definition S7_dispatcher :: dispatcher where
  "S7_dispatcher =
     \<lparr>m_actions = [\<lparr>params = [Unsigned 1], ret = Some (Unsigned 1), ftor = hd\<rparr>],
      d_endianess = LITTLE, d_signed_mode = TWO_COMPLEMENT\<rparr>"

definition S3_dispatcher :: dispatcher where
  "S3_dispatcher =
     \<lparr>m_actions = replicate 300 \<lparr>params = [], ret = None, ftor = VArr\<rparr>,
      d_endianess = LITTLE, d_signed_mode = TWO_COMPLEMENT\<rparr>"

definition add_u16 :: "cval list \<Rightarrow> cval" where
  "add_u16 args = VInt ((the_int (args ! 0) + the_int (args ! 1)) mod 2 ^ 16)"

definition S1_dispatcher :: dispatcher where
  "S1_dispatcher =
     \<lparr>m_actions = [\<lparr>params = [Unsigned 2, Unsigned 2], ret = Some (Unsigned 2), ftor = add_u16\<rparr>],
      d_endianess = LITTLE, d_signed_mode = TWO_COMPLEMENT\<rparr>"

definition widen_dispatcher :: dispatcher where
  "widen_dispatcher =
     \<lparr>m_actions = [\<lparr>params = [Unsigned 1], ret = Some (Unsigned 4), ftor = hd\<rparr>],
      d_endianess = LITTLE, d_signed_mode = TWO_COMPLEMENT\<rparr>"

section \<open>Draining the output buffer\<close>

text \<open>
  C8. For a state whose staged range lies inside the output buffer, \<open>get\<close> returns
  \<open>obuf[obuf_next]\<close> and increments \<open>obuf_next\<close> when \<open>obuf_next < obuf_bottom\<close>; when the
  two are equal it returns some byte; and \<open>is_loaded\<close> is true exactly when
  \<open>obuf_next \<noteq> obuf_bottom\<close>.
\<close>

theorem get_is_loaded_spec:
  "(m_obuf_next s < m_obuf_bottom s \<and> m_obuf_bottom s \<le> length (obuf (m_bufs s)) \<longrightarrow>
      get s = Some (obuf (m_bufs s) ! m_obuf_next s, s\<lparr>m_obuf_next := m_obuf_next s + 1\<rparr>))
   \<and> (m_obuf_next s = m_obuf_bottom s \<longrightarrow> (\<exists>b s'. get s = Some (b, s')))
   \<and> (is_loaded s \<longleftrightarrow> m_obuf_next s \<noteq> m_obuf_bottom s)"
  by (simp add: get_def is_loaded_def)

theorem get_is_loaded_spec_witness:
  "get \<lparr>m_is_index_loaded = False, m_load_count = 1, m_ibuf_next = 0, m_obuf_next = 1,
        m_obuf_bottom = 2, m_bufs = Double_buf [0] [4, 5]\<rparr>
     = Some (5, \<lparr>m_is_index_loaded = False, m_load_count = 1, m_ibuf_next = 0, m_obuf_next = 2,
                 m_obuf_bottom = 2, m_bufs = Double_buf [0] [4, 5]\<rparr>)
   \<and> is_loaded \<lparr>m_is_index_loaded = False, m_load_count = 1, m_ibuf_next = 0, m_obuf_next = 1,
        m_obuf_bottom = 2, m_bufs = Double_buf [0] [4, 5]\<rparr>
   \<and> get \<lparr>m_is_index_loaded = False, m_load_count = 1, m_ibuf_next = 0, m_obuf_next = 2,
        m_obuf_bottom = 2, m_bufs = Double_buf [0] [4, 5]\<rparr> \<noteq> None
   \<and> \<not> is_loaded \<lparr>m_is_index_loaded = False, m_load_count = 1, m_ibuf_next = 0, m_obuf_next = 2,
        m_obuf_bottom = 2, m_bufs = Double_buf [0] [4, 5]\<rparr>"
  using get_is_loaded_spec
    [of "\<lparr>m_is_index_loaded = False, m_load_count = 1, m_ibuf_next = 0, m_obuf_next = 1,
          m_obuf_bottom = 2, m_bufs = Double_buf [0] [4, 5]\<rparr>"]
    get_is_loaded_spec
    [of "\<lparr>m_is_index_loaded = False, m_load_count = 1, m_ibuf_next = 0, m_obuf_next = 2,
          m_obuf_bottom = 2, m_bufs = Double_buf [0] [4, 5]\<rparr>"]
  by auto

text \<open>
  C10. When the output buffer is empty (\<open>obuf_next = obuf_bottom\<close>), \<open>get\<close> returns the
  fixed byte \<open>byte_t{}\<close>, zero, and leaves the whole state unchanged.
\<close>

theorem get_empty_returns_zero:
  "m_obuf_next s = m_obuf_bottom s \<Longrightarrow> get s = Some (0, s)"
  by (simp add: get_def is_loaded_def)

theorem get_empty_returns_zero_witness:
  "get \<lparr>m_is_index_loaded = False, m_load_count = 1, m_ibuf_next = 0, m_obuf_next = 2,
        m_obuf_bottom = 2, m_bufs = Single_buf [7, 9]\<rparr>
     = Some (0, \<lparr>m_is_index_loaded = False, m_load_count = 1, m_ibuf_next = 0, m_obuf_next = 2,
                 m_obuf_bottom = 2, m_bufs = Single_buf [7, 9]\<rparr>)"
  using get_empty_returns_zero
    [of "\<lparr>m_is_index_loaded = False, m_load_count = 1, m_ibuf_next = 0, m_obuf_next = 2,
          m_obuf_bottom = 2, m_bufs = Single_buf [7, 9]\<rparr>"]
  by simp

section \<open>Basic facts about sizes, getters and buffers\<close>

lemma tuple_size_single [simp]: "tuple_size [t] = sizeof t"
  by (simp add: tuple_size_def type_sizes_def)

lemma index_size_pos [simp]: "0 < index_size d"
  by (simp add: index_size_def sizeof_index_t_def)

lemma index_size_ge1 [simp]: "Suc 0 \<le> index_size d"
  by (simp add: index_size_def sizeof_index_t_def)

lemma unat_byte_mod [simp]: "unat (b :: byte_t) mod 256 = unat b"
  using unsigned_less [of b, where ?'a = nat] by simp

lemma fill_from_buf_getter:
  "p + n \<le> length buf \<Longrightarrow> fill_from (buf_getter buf) n p = Some (take n (drop p buf), p + n)"
proof (induction n arbitrary: p)
  case 0
  then show ?case by simp
next
  case (Suc n)
  then have "p < length buf" and "Suc p + n \<le> length buf" by simp_all
  then show ?case
    using Suc.IH [of "Suc p"]
    by (simp add: buf_getter_def Cons_nth_drop_Suc [symmetric])
qed

lemma get_index_buf_getter:
  "index_size d \<le> length buf \<Longrightarrow>
   get_index d (buf_getter buf) 0 = Some (decoded_index d (take (index_size d) buf), index_size d)"
  by (simp add: get_index_def decoded_index_def fill_from_buf_getter)

lemma max_of_ge: "x \<in> set xs \<Longrightarrow> x \<le> max_of xs"
  by (induction xs) (auto simp: max_of_def)

lemma max_of_replicate: "max_of (replicate n x) = (if n = 0 then 0 else x)"
  by (induction n) (auto simp: max_of_def)

lemma max_p_ge: "a \<le> max_p a b"
  by (simp add: max_p_def)

lemma input_size_le_max:
  "i < dsize d \<Longrightarrow> input_size (m_actions d ! i) \<le> max_of (map_parameters_size (signatures_t d))"
  by (rule max_of_ge)
     (force simp: map_parameters_size_def signatures_t_def parameters_size_def input_size_def dsize_def
        image_iff)

lemma ibuf_store_Some:
  "i < length (ibuf bs) \<Longrightarrow> \<exists>bs'. ibuf_store bs i b = Some bs' \<and> ibuf bs' = (ibuf bs)[i := b]
      \<and> length (obuf bs') = length (obuf bs)"
  by (cases bs) simp_all

lemma current_input_size_le:
  assumes "needed_input_buffer_size d \<le> len" "current_input_size d s = Some k"
  shows "index_size d + k \<le> len"
proof -
  from assms(2) obtain idx where "idx < dsize d" "k = input_size (m_actions d ! idx)"
    by (auto simp: current_input_size_def split: option.splits if_splits)
  with input_size_le_max [of idx d] assms(1) show ?thesis
    by (simp add: needed_input_buffer_size_def)
qed

lemma upt_2: "[0..<2] = [0, 1]"
  by (simp add: upt_rec numeral_2_eq_2)

lemma decoded_index_1:
  "index_size d = 1 \<Longrightarrow> decoded_index d (b # bs) = unat b"
  by (simp add: decoded_index_def tuple_get_def field_offset_def type_sizes_def
        interpret_with_endianess_def the_int_def split: endianess.splits)

subsection \<open>The scenarios, evaluated\<close>

lemma S3_sizes:
  "dsize S3_dispatcher = 300" "index_size S3_dispatcher = 2"
  "needed_input_buffer_size S3_dispatcher = 2" "needed_output_buffer_size S3_dispatcher = 0"
  by (simp_all add: S3_dispatcher_def dsize_def index_size_def sizeof_index_t_def
        needed_input_buffer_size_def needed_output_buffer_size_def signatures_t_def
        map_parameters_size_def max_of_replicate parameters_size_def tuple_size_def type_sizes_def)

lemma S3_fresh:
  "double_buffered_undispatcher S3_dispatcher of_nat of_nat =
     \<lparr>m_is_index_loaded = False, m_load_count = 2, m_ibuf_next = 0, m_obuf_next = 0,
      m_obuf_bottom = 0, m_bufs = Double_buf [0, 1] []\<rparr>"
  by (simp add: double_buffered_undispatcher_def buffered_undispatcher_def S3_sizes
        input_buffer_size_def output_buffer_size_def upt_2)

lemma S7_sizes:
  "dsize S7_dispatcher = 1" "index_size S7_dispatcher = 1"
  "needed_input_buffer_size S7_dispatcher = 2" "needed_output_buffer_size S7_dispatcher = 1"
  "buffer_size S7_dispatcher = 2"
  "input_size (m_actions S7_dispatcher ! 0) = 1"
  by (simp_all add: S7_dispatcher_def dsize_def index_size_def sizeof_index_t_def buffer_size_def
        max_p_def needed_input_buffer_size_def needed_output_buffer_size_def signatures_t_def
        max_of_def input_size_def map_parameters_size_def parameters_size_def tuple_size_def
        type_sizes_def)

lemma S7_single_fresh:
  "single_buffered_undispatcher S7_dispatcher of_nat =
     \<lparr>m_is_index_loaded = False, m_load_count = 1, m_ibuf_next = 0, m_obuf_next = 0,
      m_obuf_bottom = 0, m_bufs = Single_buf [0, 1]\<rparr>"
  by (simp add: single_buffered_undispatcher_def buffered_undispatcher_def S7_sizes upt_2)

lemma S7_double_fresh:
  "double_buffered_undispatcher S7_dispatcher of_nat of_nat =
     \<lparr>m_is_index_loaded = False, m_load_count = 1, m_ibuf_next = 0, m_obuf_next = 0,
      m_obuf_bottom = 0, m_bufs = Double_buf [0, 1] [0]\<rparr>"
  by (simp add: double_buffered_undispatcher_def buffered_undispatcher_def S7_sizes upt_2
       input_buffer_size_def output_buffer_size_def)

lemma S7_get_index:
  "get_index S7_dispatcher (buf_getter (b # bs)) 0 = Some (unat b, 1)"
  using get_index_buf_getter [of S7_dispatcher "b # bs"]
  by (simp add: S7_sizes decoded_index_1)

section \<open>Loading a request byte by byte\<close>

lemma put_preserves:
  assumes inv: "loading_invariants d s"
  shows "\<exists>st s'. put d b s = Some (st, s') \<and> loading_invariants d s'"
proof -
  let ?isz = "index_size d"
  let ?lc = "m_load_count s"
  let ?n = "m_ibuf_next s"
  from inv have lc: "1 \<le> ?lc" and len: "needed_input_buffer_size d \<le> length (ibuf (m_bufs s))"
    and ob: "m_obuf_next s \<le> m_obuf_bottom s" "m_obuf_bottom s \<le> length (obuf (m_bufs s))"
    and idle: "\<not> m_is_index_loaded s \<Longrightarrow> ?lc + ?n = ?isz"
    and args: "m_is_index_loaded s \<Longrightarrow>
        (case current_input_size d s of None \<Rightarrow> False | Some k \<Rightarrow> ?lc + ?n = ?isz + k)"
    and past: "m_is_index_loaded s \<Longrightarrow> ?isz \<le> ?n"
    by (simp_all add: loading_invariants_def invariants_def)
  have isz_len: "?isz \<le> length (ibuf (m_bufs s))"
    using len by (simp add: needed_input_buffer_size_def)
  have in_range: "?n < length (ibuf (m_bufs s))"
  proof (cases "m_is_index_loaded s")
    case True
    with args obtain k where k: "current_input_size d s = Some k" "?lc + ?n = ?isz + k"
      by (auto split: option.splits)
    with current_input_size_le [OF len k(1)] lc show ?thesis by simp
  next
    case False
    with idle lc isz_len show ?thesis by simp
  qed
  from ibuf_store_Some [OF in_range, of b] obtain bs where
    bs: "ibuf_store (m_bufs s) ?n b = Some bs" "ibuf bs = (ibuf (m_bufs s))[?n := b]"
      "length (obuf bs) = length (obuf (m_bufs s))"
    by blast
  have dec: "dec_size_t ?lc = ?lc - 1"
    using lc by (simp add: dec_size_t_def)
  have len': "needed_input_buffer_size d \<le> length (ibuf bs)"
    using len bs(2) by simp
  have isz_len': "?isz \<le> length (ibuf bs)"
    using isz_len bs(2) by simp
  show ?thesis
  proof (cases "1 < ?lc")
    case True
    let ?s1 = "s\<lparr>m_bufs := bs, m_ibuf_next := ?n + 1, m_load_count := ?lc - 1\<rparr>"
    have p: "put d b s = Some (LOADING_PACKET, ?s1)"
      using True bs(1) dec by (simp add: put_def)
    have keep: "current_input_size d ?s1 = current_input_size d s" if "m_is_index_loaded s"
      using past [OF that] bs(2) in_range
      by (simp add: current_input_size_def get_index_buf_getter isz_len isz_len')
    have "loading_invariants d ?s1"
      unfolding loading_invariants_def invariants_def
      using True lc ob idle args past keep in_range bs(2,3) len'
      by (auto split: option.splits)
    with p show ?thesis by blast
  next
    case False
    with lc have one: "?lc = 1" by simp
    let ?s0 = "s\<lparr>m_bufs := bs, m_ibuf_next := 0, m_load_count := ?isz, m_is_index_loaded := False\<rparr>"
    have reset: "loading_invariants d ?s0"
      unfolding loading_invariants_def invariants_def
      using ob bs(3) len' by simp
    show ?thesis
    proof (cases "m_is_index_loaded s")
      case True
      have "put d b s = Some (RESOLVED_PACKET, ?s0)"
        using True one bs(1) dec by (simp add: put_def)
      with reset show ?thesis by blast
    next
      case False
      let ?idx = "decoded_index d (take ?isz (ibuf bs))"
      have gi: "get_index d (buf_getter (ibuf bs)) 0 = Some (?idx, ?isz)"
        by (rule get_index_buf_getter [OF isz_len'])
      show ?thesis
      proof (cases "?idx < dsize d")
        case out: False
        have "put d b s = Some (DROPPED_PACKET, ?s0)"
          using False out one bs(1) dec gi by (simp add: put_def)
        with reset show ?thesis by blast
      next
        case inr: True
        let ?k = "input_size (m_actions d ! ?idx)"
        show ?thesis
        proof (cases "?k = 0")
          case True
          have "put d b s = Some (RESOLVED_PACKET, ?s0)"
            using False inr True one bs(1) dec gi by (simp add: put_def)
          with reset show ?thesis by blast
        next
          case nz: False
          let ?s2 = "s\<lparr>m_bufs := bs, m_ibuf_next := ?n + 1, m_load_count := ?k,
                       m_is_index_loaded := True\<rparr>"
          have p: "put d b s = Some (LOADING_PACKET, ?s2)"
            using False inr nz one bs(1) dec gi by (simp add: put_def)
          have n: "?n + 1 = ?isz" using idle [OF False] one by simp
          have cur: "current_input_size d ?s2 = Some ?k"
            using gi inr by (simp add: current_input_size_def)
          have "?isz + ?k \<le> length (ibuf bs)"
            by (rule current_input_size_le [OF len' cur])
          then have "loading_invariants d ?s2"
            unfolding loading_invariants_def invariants_def
            using nz n cur ob bs(3) len' by simp
          with p show ?thesis by blast
        qed
      qed
    qed
  qed
qed

lemma fresh_loading_invariants:
  "needed_input_buffer_size d \<le> length (ibuf bufs) \<Longrightarrow>
   loading_invariants d (buffered_undispatcher d bufs)"
  by (simp add: loading_invariants_def invariants_def buffered_undispatcher_def)

lemma single_loading_invariants: "loading_invariants d (single_buffered_undispatcher d mem)"
  unfolding single_buffered_undispatcher_def
  by (rule fresh_loading_invariants) (simp add: buffer_size_def max_p_ge)

lemma double_loading_invariants: "loading_invariants d (double_buffered_undispatcher d imem omem)"
  unfolding double_buffered_undispatcher_def
  by (rule fresh_loading_invariants) (simp add: input_buffer_size_def)

lemma puts_preserve:
  "loading_invariants d s \<Longrightarrow> \<exists>s'. puts d bytes s = Some s' \<and> loading_invariants d s'"
proof (induction bytes arbitrary: s)
  case Nil
  then show ?case by simp
next
  case (Cons b bytes)
  from put_preserves [OF Cons.prems, of b] obtain st s1 where
    "put d b s = Some (st, s1)" "loading_invariants d s1" by blast
  with Cons.IH [of s1] show ?case by simp
qed

text \<open>
  C6, as amended. On a freshly constructed single or double buffered dispatcher, every
  sequence of \<open>put\<close> calls runs without a store past the input buffer, and after every
  call: \<open>ibuf_next\<close> is at most the size of the input buffer,
  \<open>obuf_next \<le> obuf_bottom \<le>\<close> the size of the output buffer,
  \<open>load_count + ibuf_next = sizeof(index_t)\<close> while the index is not loaded, and
  \<open>load_count + ibuf_next = sizeof(index_t) + input_size\<close> of the current action while it
  is loaded.
\<close>

theorem put_sequence_invariants:
  "(\<exists>s'. puts d bytes (single_buffered_undispatcher d mem) = Some s' \<and> invariants d s')
   \<and> (\<exists>s'. puts d bytes (double_buffered_undispatcher d imem omem) = Some s' \<and> invariants d s')"
  using puts_preserve [OF single_loading_invariants, of d bytes mem]
    puts_preserve [OF double_loading_invariants, of d bytes imem omem]
  by (auto simp: loading_invariants_def)

theorem put_sequence_invariants_witness:
  "puts S3_dispatcher [44] (double_buffered_undispatcher S3_dispatcher of_nat of_nat) =
     Some \<lparr>m_is_index_loaded = False, m_load_count = 1, m_ibuf_next = 1, m_obuf_next = 0,
           m_obuf_bottom = 0, m_bufs = Double_buf [44, 1] []\<rparr>
   \<and> invariants S3_dispatcher
        \<lparr>m_is_index_loaded = False, m_load_count = 1, m_ibuf_next = 1, m_obuf_next = 0,
         m_obuf_bottom = 0, m_bufs = Double_buf [44, 1] []\<rparr>"
  using put_sequence_invariants [of S3_dispatcher "[44]" of_nat of_nat of_nat]
  by (simp add: S3_fresh put_def dec_size_t_def S3_sizes)

text \<open>
  The claim as the spec words it fails where the index type is wider than a byte: with
  the 300 actions of scenario S3 the index has two bytes, and after the first of them
  the index is not loaded while \<open>load_count\<close> is 1, not \<open>sizeof(index_t) = 2\<close>.
\<close>

theorem idle_load_count_counterexample:
  "puts S3_dispatcher [44] (double_buffered_undispatcher S3_dispatcher of_nat of_nat) =
     Some \<lparr>m_is_index_loaded = False, m_load_count = 1, m_ibuf_next = 1, m_obuf_next = 0,
           m_obuf_bottom = 0, m_bufs = Double_buf [44, 1] []\<rparr>
   \<and> \<not> claimed_invariants S3_dispatcher
        \<lparr>m_is_index_loaded = False, m_load_count = 1, m_ibuf_next = 1, m_obuf_next = 0,
         m_obuf_bottom = 0, m_bufs = Double_buf [44, 1] []\<rparr>"
  by (simp add: S3_fresh put_def dec_size_t_def claimed_invariants_def S3_sizes)

section \<open>The byte loops of the codec\<close>

text \<open>
  The read loop assembles the number whose base-256 digits are the bytes of the integer,
  the write loop stores the digits of its argument; so a read after a write returns the
  argument modulo \<open>256 ^ n\<close>.
\<close>

lemma or_push_bit_add:
  fixes a :: nat
  assumes "a < 2 ^ k"
  shows "a OR push_bit k b = a + b * 2 ^ k"
proof -
  have "a AND push_bit k b = take_bit k a AND push_bit k b"
    using assms by (simp add: take_bit_nat_eq_self)
  also have "\<dots> = 0"
    by (rule bit_eqI) (auto simp: bit_and_iff bit_take_bit_iff bit_push_bit_iff)
  finally show ?thesis
    by (simp add: disjunctive_add_eq_or [symmetric] push_bit_eq_mult)
qed

lemma and_255: "(x::nat) AND 255 = x mod 256"
proof -
  have m: "(255::nat) = mask 8" by (simp add: mask_eq_exp_minus_1)
  have "x AND mask 8 = x mod 2 ^ 8"
    by (simp only: take_bit_eq_mask [symmetric] take_bit_eq_mod)
  then show ?thesis unfolding m by simp
qed

lemma drop_bit_8: "drop_bit 8 (x::nat) = x div 256"
  by (simp add: drop_bit_eq_div)

lemma digits_value_Suc [simp]: "digits_value g (Suc n) = digits_value g n + g n * 256 ^ n"
  by (simp add: digits_value_def)

lemma digits_value_0 [simp]: "digits_value g 0 = 0"
  by (simp add: digits_value_def)

lemma digits_value_less:
  "(\<And>i. i < n \<Longrightarrow> g i < 256) \<Longrightarrow> digits_value g n < 256 ^ n"
proof (induction n)
  case 0
  then show ?case by simp
next
  case (Suc n)
  have a: "digits_value g n < 256 ^ n"
    by (rule Suc.IH) (simp add: Suc.prems)
  have "g n < 256" by (rule Suc.prems) simp
  then have b: "g n \<le> 255" by simp
  have "g n * 256 ^ n \<le> 255 * 256 ^ n" using b by simp
  with a have "digits_value g n + g n * 256 ^ n < 256 ^ n + 255 * 256 ^ n" by linarith
  then show ?case by simp
qed

lemma digits_value_cong:
  "(\<And>i. i < n \<Longrightarrow> g i = h i) \<Longrightarrow> digits_value g n = digits_value h n"
  by (simp add: digits_value_def)

lemma digits_of_nat: "digits_value (\<lambda>i. (x div 256 ^ i) mod 256) n = x mod 256 ^ n"
proof (induction n)
  case 0
  then show ?case by simp
next
  case (Suc n)
  have "x mod (256 ^ n * 256) = 256 ^ n * (x div 256 ^ n mod 256) + x mod 256 ^ n"
    by (rule mod_mult2_eq)
  then have "x mod 256 ^ Suc n = x mod 256 ^ n + ((x div 256 ^ n) mod 256) * 256 ^ n"
    by (simp only: power_Suc2 mult.commute add.commute)
  with Suc show ?case by simp
qed

lemma pow256: "(256::nat) ^ n = 2 ^ (8 * n)"
  by (simp add: power_mult)

lemma read_loop:
  assumes "\<And>i. i < n \<Longrightarrow> g i < 256" and "n \<le> tsize"
  shows "fold (\<lambda>i retval. (retval OR push_bit (8 * i) (g i)) mod 2 ^ (8 * tsize)) [0..<n] 0
         = digits_value g n"
  using assms
proof (induction n)
  case 0
  then show ?case by simp
next
  case (Suc n)
  have lt: "digits_value g n < 2 ^ (8 * n)"
    using digits_value_less [of n g] Suc.prems(1) by (simp add: pow256)
  have "digits_value g (Suc n) < 256 ^ Suc n"
    by (rule digits_value_less) (rule Suc.prems(1))
  also have "\<dots> \<le> 2 ^ (8 * tsize)"
    using Suc.prems(2) unfolding pow256 by (intro power_increasing) simp_all
  finally have small: "digits_value g (Suc n) < 2 ^ (8 * tsize)" .
  have ih: "fold (\<lambda>i retval. (retval OR push_bit (8 * i) (g i)) mod 2 ^ (8 * tsize)) [0..<n] 0
         = digits_value g n"
    using Suc.prems by (intro Suc.IH) simp_all
  show ?case
    using small by (simp add: ih or_push_bit_add [OF lt] pow256)
qed

lemma write_loop:
  assumes "fold (\<lambda>i (u', x'). (u'\<lparr>m_raw_data := (m_raw_data u')[idx i := of_nat (x' AND 255)]\<rparr>,
                                 drop_bit 8 x')) [0..<m] (u, x) = (w, y)"
    and "inj_on idx {..<m}" and "\<And>i. i < m \<Longrightarrow> idx i < length (m_raw_data u)"
  shows "y = x div 256 ^ m \<and> m_endianess w = m_endianess u \<and> m_signed_mode w = m_signed_mode u
     \<and> length (m_raw_data w) = length (m_raw_data u)
     \<and> (\<forall>i<m. m_raw_data w ! idx i = (of_nat ((x div 256 ^ i) mod 256) :: byte_t))
     \<and> (\<forall>p. p \<notin> idx ` {..<m} \<longrightarrow> m_raw_data w ! p = m_raw_data u ! p)"
  using assms
proof (induction m arbitrary: w y)
  case 0
  then show ?case by simp
next
  case (Suc m)
  let ?F = "\<lambda>i (u', x'). (u'\<lparr>m_raw_data := (m_raw_data u')[idx i := of_nat (x' AND 255)]\<rparr>,
                                 drop_bit 8 x')"
  obtain w0 y0 where f0: "fold ?F [0..<m] (u, x) = (w0, y0)"
    by (cases "fold ?F [0..<m] (u, x)")
  have inj: "inj_on idx {..<m}"
    using Suc.prems(2) by (rule inj_on_subset) auto
  have ih: "y0 = x div 256 ^ m \<and> m_endianess w0 = m_endianess u \<and> m_signed_mode w0 = m_signed_mode u
     \<and> length (m_raw_data w0) = length (m_raw_data u)
     \<and> (\<forall>i<m. m_raw_data w0 ! idx i = (of_nat ((x div 256 ^ i) mod 256) :: byte_t))
     \<and> (\<forall>p. p \<notin> idx ` {..<m} \<longrightarrow> m_raw_data w0 ! p = m_raw_data u ! p)"
    using f0 inj Suc.prems(3) by (intro Suc.IH) simp_all
  have w: "w = w0\<lparr>m_raw_data := (m_raw_data w0)[idx m := of_nat (y0 AND 255)]\<rparr>"
    and y: "y = drop_bit 8 y0"
    using Suc.prems(1) f0 by simp_all
  have ne: "idx i \<noteq> idx m" if "i < m" for i
    using Suc.prems(2) that by (auto simp: inj_on_def)
  have inb: "idx m < length (m_raw_data w0)"
    using ih Suc.prems(3) [of m] by simp
  have "x div 256 ^ m div 256 = x div (256 ^ m * 256)"
    by (simp only: div_mult2_eq)
  then have "y = x div 256 ^ Suc m"
    using y ih by (simp only: drop_bit_8 power_Suc2)
  moreover have "\<forall>i<Suc m. m_raw_data w ! idx i = (of_nat ((x div 256 ^ i) mod 256) :: byte_t)"
  proof (intro allI impI)
    fix i
    assume i: "i < Suc m"
    show "m_raw_data w ! idx i = (of_nat ((x div 256 ^ i) mod 256) :: byte_t)"
    proof (cases "i = m")
      case True
      then show ?thesis using w ih inb by (simp add: and_255)
    next
      case False
      with i have "i < m" by simp
      with ne [of i] w ih show ?thesis by simp
    qed
  qed
  moreover have "\<forall>p. p \<notin> idx ` {..<Suc m} \<longrightarrow> m_raw_data w ! p = m_raw_data u ! p"
    using w ih by (auto simp: nth_list_update lessThan_Suc)
  ultimately show ?case
    using w ih by simp
qed

lemma byte_pos_range: "i < n \<Longrightarrow> offset \<le> byte_pos e offset n i \<and> byte_pos e offset n i < offset + n"
  by (cases e) (auto simp: byte_pos_def)

lemma byte_pos_inj: "inj_on (byte_pos e offset n) {..<n}"
  by (cases e) (auto simp: byte_pos_def inj_on_def)

lemma interpret_digits:
  assumes "n \<le> tsize"
  shows "interpret_with_endianess tsize u offset n
         = digits_value (\<lambda>i. unat (m_raw_data u ! byte_pos (m_endianess u) offset n i)) n"
proof -
  have "interpret_with_endianess tsize u offset n
      = fold (\<lambda>i retval. (retval OR push_bit (8 * i)
                (unat (m_raw_data u ! byte_pos (m_endianess u) offset n i))) mod 2 ^ (8 * tsize)) [0..<n] 0"
    by (cases "m_endianess u") (simp_all add: interpret_with_endianess_def byte_pos_def)
  also have "\<dots> = digits_value (\<lambda>i. unat (m_raw_data u ! byte_pos (m_endianess u) offset n i)) n"
    by (rule read_loop) (use assms unsigned_less [where ?'a = nat and ?'b = 8] in simp_all)
  finally show ?thesis .
qed

lemma interpret_local:
  assumes "m_endianess u1 = m_endianess u2"
    and "\<And>p. offset \<le> p \<Longrightarrow> p < offset + n \<Longrightarrow> m_raw_data u1 ! p = m_raw_data u2 ! p"
  shows "interpret_with_endianess tsize u1 offset n = interpret_with_endianess tsize u2 offset n"
proof (cases "m_endianess u2")
  case LITTLE
  then show ?thesis
    using assms by (auto simp: interpret_with_endianess_def intro!: fold_cong)
next
  case BIG
  then show ?thesis
    using assms by (auto simp: interpret_with_endianess_def intro!: fold_cong)
qed

lemma write_with_endianess_facts:
  fixes x :: nat
  assumes "offset + n \<le> length (m_raw_data u)"
  defines "w \<equiv> write_with_endianess u x offset n"
  shows "m_endianess w = m_endianess u" "m_signed_mode w = m_signed_mode u"
    "length (m_raw_data w) = length (m_raw_data u)"
    "\<And>i. i < n \<Longrightarrow> m_raw_data w ! byte_pos (m_endianess u) offset n i = of_nat ((x div 256 ^ i) mod 256)"
    "\<And>p. p < offset \<or> offset + n \<le> p \<Longrightarrow> m_raw_data w ! p = m_raw_data u ! p"
proof -
  let ?idx = "byte_pos (m_endianess u) offset n"
  let ?F = "\<lambda>i (u', x'). (u'\<lparr>m_raw_data := (m_raw_data u')[?idx i := of_nat (x' AND 255)]\<rparr>,
                                 drop_bit 8 x')"
  have w: "w = fst (fold ?F [0..<n] (u, x))"
    unfolding w_def by (cases "m_endianess u") (simp_all add: write_with_endianess_def byte_pos_def)
  obtain y where f: "fold ?F [0..<n] (u, x) = (w, y)"
    using w by (cases "fold ?F [0..<n] (u, x)") simp
  have inb: "\<And>i. i < n \<Longrightarrow> ?idx i < length (m_raw_data u)"
    using byte_pos_range [of _ n offset "m_endianess u"] assms(1) by fastforce
  note L = write_loop [OF f byte_pos_inj inb]
  show "m_endianess w = m_endianess u" "m_signed_mode w = m_signed_mode u"
    "length (m_raw_data w) = length (m_raw_data u)"
    using L by simp_all
  show "\<And>i. i < n \<Longrightarrow> m_raw_data w ! ?idx i = of_nat ((x div 256 ^ i) mod 256)"
    using L by simp
  show "\<And>p. p < offset \<or> offset + n \<le> p \<Longrightarrow> m_raw_data w ! p = m_raw_data u ! p"
  proof -
    fix p assume p: "p < offset \<or> offset + n \<le> p"
    have "p \<notin> ?idx ` {..<n}"
      using p byte_pos_range [of _ n offset "m_endianess u"] by fastforce
    with L show "m_raw_data w ! p = m_raw_data u ! p" by simp
  qed
qed

lemma interpret_write:
  assumes "n \<le> tsize" "offset + n \<le> length (m_raw_data u)"
  shows "interpret_with_endianess tsize (write_with_endianess u x offset n) offset n = x mod 256 ^ n"
proof -
  note W = write_with_endianess_facts [OF assms(2), where x = x]
  have "interpret_with_endianess tsize (write_with_endianess u x offset n) offset n
      = digits_value (\<lambda>i. unat (m_raw_data (write_with_endianess u x offset n)
                                   ! byte_pos (m_endianess u) offset n i)) n"
    by (simp add: interpret_digits [OF assms(1)] W(1))
  also have "\<dots> = digits_value (\<lambda>i. (x div 256 ^ i) mod 256) n"
    by (rule digits_value_cong) (simp add: W(4) unat_of_nat)
  also have "\<dots> = x mod 256 ^ n"
    by (rule digits_of_nat)
  finally show ?thesis .
qed

section \<open>Signed representations\<close>

text \<open>
  Each signed mode maps a value that \<open>n\<close> bytes can hold to a pattern whose low \<open>n\<close>
  bytes map back to the value.
\<close>

lemma int_mod_small:
  fixes x P :: int
  shows "0 \<le> x \<Longrightarrow> x < P \<Longrightarrow> x mod P = x"
    and "- P \<le> x \<Longrightarrow> x < 0 \<Longrightarrow> x mod P = x + P"
proof -
  show "0 \<le> x \<Longrightarrow> x < P \<Longrightarrow> x mod P = x" by simp
  assume a: "- P \<le> x" "x < 0"
  have "0 \<le> x + P" "x + P < P" using a by simp_all
  then have "(x + P) mod P = x + P" by (rule mod_pos_pos_trivial)
  moreover have "(x + P) mod P = x mod P" by (rule mod_add_self2)
  ultimately show "x mod P = x + P" by (simp only:)
qed

lemma reduce64:
  fixes x :: int
  assumes "n \<le> 8"
  shows "nat (x mod 2 ^ 64) mod 256 ^ n = nat (x mod 2 ^ (8 * n))"
proof -
  have d: "(2::int) ^ (8 * n) dvd 2 ^ 64"
    using assms by (intro le_imp_power_dvd) simp
  have "nat (x mod 2 ^ 64) mod 256 ^ n = nat (x mod 2 ^ 64) mod nat (2 ^ (8 * n))"
    by (simp add: pow256 nat_power_eq)
  also have "\<dots> = nat ((x mod 2 ^ 64) mod 2 ^ (8 * n))"
    by (simp add: nat_mod_distrib)
  also have "\<dots> = nat (x mod 2 ^ (8 * n))"
    using d by (simp add: mod_mod_cancel)
  finally show ?thesis .
qed

lemma pow_split:
  assumes "1 \<le> n"
  shows "(2::int) ^ (8 * n) = 2 * 2 ^ (8 * n - 1)" "(2::nat) ^ (8 * n) = 2 * 2 ^ (8 * n - 1)"
proof -
  have "8 * n = Suc (8 * n - 1)" using assms by simp
  then show "(2::int) ^ (8 * n) = 2 * 2 ^ (8 * n - 1)" "(2::nat) ^ (8 * n) = 2 * 2 ^ (8 * n - 1)"
    by (metis power_Suc)+
qed

lemma from_two_complement_generic:
  fixes x :: int and H :: nat
  assumes "- int H \<le> x" "x < int H"
  shows "(let p = nat (x mod (2 * int H)) mod (2 * H)
          in if H \<le> p then int p - 2 * int H else int p) = x"
proof (cases "0 \<le> x")
  case True
  then have "x mod (2 * int H) = x" using assms by (intro int_mod_small(1)) simp_all
  moreover have "nat x mod (2 * H) = nat x" using True assms by simp
  moreover have "\<not> H \<le> nat x" using True assms by simp
  ultimately show ?thesis using True by (simp add: Let_def)
next
  case False
  then have "x mod (2 * int H) = x + 2 * int H" using assms by (intro int_mod_small(2)) simp_all
  moreover have "nat (x + 2 * int H) mod (2 * H) = nat (x + 2 * int H)" using False assms by simp
  moreover have "H \<le> nat (x + 2 * int H)" using False assms by simp
  moreover have "int (nat (x + 2 * int H)) - 2 * int H = x" using False assms by simp
  ultimately show ?thesis by (simp add: Let_def)
qed

lemma from_one_complement_generic:
  fixes x :: int and H :: nat
  assumes "- int H < x" "x < int H"
  shows "(let p = (if 0 \<le> x then nat (x mod (2 * int H)) else nat ((x - 1) mod (2 * int H))) mod (2 * H)
          in if H \<le> p then - int (2 * H - 1 - p) else int p) = x"
proof (cases "0 \<le> x")
  case True
  then have "x mod (2 * int H) = x" using assms by (intro int_mod_small(1)) simp_all
  moreover have "nat x mod (2 * H) = nat x" using True assms by simp
  moreover have "\<not> H \<le> nat x" using True assms by simp
  ultimately show ?thesis using True by (simp add: Let_def)
next
  case False
  then have "(x - 1) mod (2 * int H) = x - 1 + 2 * int H"
    using assms by (intro int_mod_small(2)) simp_all
  moreover have "nat (x - 1 + 2 * int H) mod (2 * H) = nat (x - 1 + 2 * int H)"
    using False assms by simp
  moreover have "H \<le> nat (x - 1 + 2 * int H)" using False assms by simp
  moreover have "- int (2 * H - 1 - nat (x - 1 + 2 * int H)) = x" using False assms by simp
  ultimately show ?thesis using False by (simp add: Let_def)
qed

lemma two_complement_roundtrip:
  assumes "1 \<le> n" "n \<le> 8" "- (2 ^ (8 * n - 1)) \<le> x" "x < 2 ^ (8 * n - 1)"
  shows "interpret_from_two_complement n (interpret_to_two_complement x mod 256 ^ n) = x"
proof -
  define H :: nat where "H = 2 ^ (8 * n - 1)"
  have P: "(2::int) ^ (8 * n) = 2 * int H" and Pn: "(2::nat) ^ (8 * n) = 2 * H"
    using pow_split [OF assms(1)] by (simp_all add: H_def)
  have r: "- int H \<le> x" "x < int H" using assms(3,4) by (simp_all add: H_def)
  have tmp: "interpret_to_two_complement x mod 256 ^ n = nat (x mod (2 * int H))"
    unfolding interpret_to_two_complement_def P [symmetric] by (rule reduce64 [OF assms(2)])
  show ?thesis
    unfolding interpret_from_two_complement_def tmp Pn P H_def [symmetric]
    by (rule from_two_complement_generic [OF r])
qed

lemma one_complement_roundtrip:
  assumes "1 \<le> n" "n \<le> 8" "- (2 ^ (8 * n - 1)) < x" "x < 2 ^ (8 * n - 1)"
  shows "interpret_from_one_complement n (interpret_to_one_complement x mod 256 ^ n) = x"
proof -
  define H :: nat where "H = 2 ^ (8 * n - 1)"
  have P: "(2::int) ^ (8 * n) = 2 * int H" and Pn: "(2::nat) ^ (8 * n) = 2 * H"
    using pow_split [OF assms(1)] by (simp_all add: H_def)
  have r: "- int H < x" "x < int H" using assms(3,4) by (simp_all add: H_def)
  have le64: "(2::int) ^ (8 * n) \<le> 2 ^ 64"
    using assms(2) by (intro power_increasing) simp_all
  have tmp: "interpret_to_one_complement x mod 256 ^ n
      = (if 0 \<le> x then nat (x mod (2 * int H)) else nat ((x - 1) mod (2 * int H)))"
  proof (cases "0 \<le> x")
    case True
    have "interpret_to_one_complement x = nat (x mod 2 ^ 64)"
      using True by (simp only: interpret_to_one_complement_def if_True)
    then show ?thesis
      using True by (simp only: reduce64 [OF assms(2)] P if_True)
  next
    case False
    have xr: "- (2 ^ 64) < x" "x < 0"
      using False r le64 by (simp_all add: P)
    have neg: "(- x) mod 2 ^ 64 = - x"
      using xr by (intro int_mod_small(1)) simp_all
    have "interpret_to_one_complement x = 2 ^ 64 - 1 - nat (- x)"
      using False by (simp only: interpret_to_one_complement_def neg if_False)
    also have "\<dots> = nat (x - 1 + 2 ^ 64)"
      using xr by (simp add: nat_diff_distrib' nat_add_distrib)
    also have "x - 1 + 2 ^ 64 = (x - 1) mod 2 ^ 64"
      using xr by (intro int_mod_small(2) [symmetric]) simp_all
    finally have eq: "interpret_to_one_complement x = nat ((x - 1) mod 2 ^ 64)" .
    show ?thesis
      using False unfolding eq by (simp only: reduce64 [OF assms(2)] P if_False)
  qed
  have "interpret_from_one_complement n (interpret_to_one_complement x mod 256 ^ n)
      = (let p = (if 0 \<le> x then nat (x mod (2 * int H)) else nat ((x - 1) mod (2 * int H))) mod (2 * H)
          in if H \<le> p then - int (2 * H - 1 - p) else int p)"
    unfolding interpret_from_one_complement_def tmp Pn H_def [symmetric] ..
  also have "\<dots> = x"
    by (rule from_one_complement_generic [OF r])
  finally show ?thesis .
qed

text \<open>
  The minimum of a signed type is the one value that one's complement has no pattern for:
  its pattern, cut to \<open>n\<close> bytes, is that of the maximum.
\<close>

lemma one_complement_minimum:
  assumes "1 \<le> n" "n \<le> 8"
  shows "interpret_from_one_complement n
           (interpret_to_one_complement (- (2 ^ (8 * n - 1))) mod 256 ^ n) = 2 ^ (8 * n - 1) - 1"
proof -
  define H :: nat where "H = 2 ^ (8 * n - 1)"
  define x :: int where "x = - int H"
  have H0: "0 < H" by (simp add: H_def)
  have P: "(2::int) ^ (8 * n) = 2 * int H" and Pn: "(2::nat) ^ (8 * n) = 2 * H"
    using pow_split [OF assms(1)] by (simp_all add: H_def)
  have le64: "(2::int) ^ (8 * n) \<le> 2 ^ 64"
    using assms(2) by (intro power_increasing) simp_all
  have xr: "- (2 ^ 64) < x" "x < 0"
    using le64 H0 by (simp_all add: P x_def)
  have neg: "(- x) mod 2 ^ 64 = - x"
    using xr by (intro int_mod_small(1)) simp_all
  have "interpret_to_one_complement x = 2 ^ 64 - 1 - nat (- x)"
    using xr(2) by (simp only: interpret_to_one_complement_def neg if_False not_le [symmetric])
  also have "\<dots> = nat (x - 1 + 2 ^ 64)"
    using xr by (simp add: nat_diff_distrib' nat_add_distrib)
  also have "x - 1 + 2 ^ 64 = (x - 1) mod 2 ^ 64"
    using xr by (intro int_mod_small(2) [symmetric]) simp_all
  finally have eq: "interpret_to_one_complement x = nat ((x - 1) mod 2 ^ 64)" .
  have tmp: "interpret_to_one_complement x mod 256 ^ n = nat ((x - 1) mod (2 * int H))"
    unfolding eq by (simp only: reduce64 [OF assms(2)] P)
  have "(x - 1) mod (2 * int H) = x - 1 + 2 * int H"
    using H0 by (intro int_mod_small(2)) (simp_all add: x_def)
  then have p: "nat ((x - 1) mod (2 * int H)) = H - 1"
    using H0 by (simp add: x_def)
  have small: "(H - 1) mod (2 * H) = H - 1" "\<not> H \<le> H - 1"
    using H0 by simp_all
  have "interpret_from_one_complement n (interpret_to_one_complement x mod 256 ^ n) = int (H - 1)"
    unfolding interpret_from_one_complement_def tmp Pn p H_def [symmetric]
    using small by (simp add: Let_def)
  also have "\<dots> = int H - 1" using H0 by (simp add: of_nat_diff)
  finally show ?thesis by (simp add: x_def H_def)
qed

lemma has_type_representable:
  "has_type m t v \<Longrightarrow> representable t v"
  unfolding representable_def
proof (induction t arbitrary: v)
  case (Unsigned n)
  then show ?case by simp
next
  case (Signed n)
  then show ?case by (cases v; cases m) simp_all
next
  case (Array t k)
  from Array.prems obtain vs where v: "v = VArr vs" and l: "length vs = k"
    and a: "list_all (has_type m t) vs"
    by (cases v) simp_all
  from a Array.IH have "list_all (has_type TWO_COMPLEMENT t) vs"
    by (simp add: list_all_iff)
  with v l show ?case by simp
qed

lemma has_type_one_complement:
  "has_type ONE_COMPLEMENT (Signed n) (VInt x)
   \<longleftrightarrow> representable (Signed n) (VInt x) \<and> x \<noteq> - (2 ^ (8 * n - 1))"
  by (auto simp add: representable_def)

section \<open>Typed reads and writes of the unaligned storage\<close>

text \<open>
  \<open>interpret_as\<close> depends on the bytes of its value only, \<open>write\<close> changes those bytes
  only, and \<open>interpret_as\<close> after \<open>write\<close> returns the value written.
\<close>

lemma elem_range:
  fixes sz :: nat
  assumes "i < k"
  shows "offset + i * sz + sz \<le> offset + k * sz"
proof -
  have "Suc i * sz \<le> k * sz" using assms by (intro mult_le_mono1) simp
  then show ?thesis by simp
qed

lemma interpret_as_local:
  assumes "m_endianess u1 = m_endianess u2" "m_signed_mode u1 = m_signed_mode u2"
    and "\<And>p. offset \<le> p \<Longrightarrow> p < offset + sizeof t \<Longrightarrow> m_raw_data u1 ! p = m_raw_data u2 ! p"
  shows "interpret_as t u1 offset = interpret_as t u2 offset"
  using assms
proof (induction t arbitrary: offset)
  case (Unsigned n)
  then show ?case
    using interpret_local [of u1 u2 offset n n] by simp
next
  case (Signed n)
  then show ?case
    using interpret_local [of u1 u2 offset n 8] by simp
next
  case (Array t k)
  have "interpret_as t u1 (offset + i * sizeof t) = interpret_as t u2 (offset + i * sizeof t)"
    if "i < k" for i
  proof (rule Array.IH [OF Array.prems(1,2)])
    fix p
    assume "offset + i * sizeof t \<le> p" "p < offset + i * sizeof t + sizeof t"
    with elem_range [OF that, of offset "sizeof t"] show "m_raw_data u1 ! p = m_raw_data u2 ! p"
      by (intro Array.prems(3)) simp_all
  qed
  then show ?case by simp
qed

lemma write_at_frame:
  assumes "offset + sizeof t \<le> length (m_raw_data u)"
  shows "m_endianess (write_at t u v offset) = m_endianess u
     \<and> m_signed_mode (write_at t u v offset) = m_signed_mode u
     \<and> length (m_raw_data (write_at t u v offset)) = length (m_raw_data u)
     \<and> (\<forall>p. p < offset \<or> offset + sizeof t \<le> p \<longrightarrow>
            m_raw_data (write_at t u v offset) ! p = m_raw_data u ! p)"
  using assms
proof (induction t arbitrary: u v offset)
  case (Unsigned n)
  then have inb: "offset + n \<le> length (m_raw_data u)" by simp
  note W = write_with_endianess_facts [OF inb, where x = "nat (the_int v)"]
  show ?case using W(1,2,3,5) by simp
next
  case (Signed n)
  then have inb: "offset + n \<le> length (m_raw_data u)" by simp
  note W1 = write_with_endianess_facts [OF inb, where x = "interpret_to_one_complement (the_int v)"]
  note W2 = write_with_endianess_facts [OF inb, where x = "interpret_to_two_complement (the_int v)"]
  show ?case
    using W1(1,2,3,5) W2(1,2,3,5) by (cases "m_signed_mode u") (simp_all add: Let_def)
next
  case (Array t k)
  let ?F = "\<lambda>i u'. write_at t u' (elem_at v i) (offset + i * sizeof t)"
  have "j \<le> k \<Longrightarrow>
        m_endianess (fold ?F [0..<j] u) = m_endianess u
      \<and> m_signed_mode (fold ?F [0..<j] u) = m_signed_mode u
      \<and> length (m_raw_data (fold ?F [0..<j] u)) = length (m_raw_data u)
      \<and> (\<forall>p. p < offset \<or> offset + k * sizeof t \<le> p \<longrightarrow>
            m_raw_data (fold ?F [0..<j] u) ! p = m_raw_data u ! p)" for j
  proof (induction j)
    case 0
    then show ?case by simp
  next
    case (Suc j)
    let ?U = "fold ?F [0..<j] u"
    have jk: "j < k" using Suc.prems by simp
    from Suc.IH [OF less_imp_le [OF jk]]
    have ih: "m_endianess ?U = m_endianess u" "m_signed_mode ?U = m_signed_mode u"
      "length (m_raw_data ?U) = length (m_raw_data u)"
      "\<And>p. p < offset \<or> offset + k * sizeof t \<le> p \<Longrightarrow> m_raw_data ?U ! p = m_raw_data u ! p"
      by blast+
    have r: "offset + j * sizeof t + sizeof t \<le> offset + k * sizeof t"
      by (rule elem_range [OF jk])
    have inb: "offset + j * sizeof t + sizeof t \<le> length (m_raw_data ?U)"
      using r Array.prems ih(3) by simp
    let ?W = "write_at t ?U (elem_at v j) (offset + j * sizeof t)"
    from Array.IH [OF inb, of "elem_at v j"]
    have W: "m_endianess ?W = m_endianess ?U" "m_signed_mode ?W = m_signed_mode ?U"
      "length (m_raw_data ?W) = length (m_raw_data ?U)"
      "\<And>p. p < offset + j * sizeof t \<or> offset + j * sizeof t + sizeof t \<le> p \<Longrightarrow>
          m_raw_data ?W ! p = m_raw_data ?U ! p"
      by blast+
    have "m_raw_data ?W ! p = m_raw_data u ! p" if p: "p < offset \<or> offset + k * sizeof t \<le> p" for p
    proof -
      from p r have "p < offset + j * sizeof t \<or> offset + j * sizeof t + sizeof t \<le> p"
        by auto
      from W(4) [OF this] ih(4) [OF p] show ?thesis by simp
    qed
    with W(1,2,3) ih(1,2,3) show ?case by simp
  qed
  from this [of k] show ?case by simp
qed

lemma interpret_as_write_at:
  assumes "ctype_ok t" "has_type (m_signed_mode u) t v" "offset + sizeof t \<le> length (m_raw_data u)"
  shows "interpret_as t (write_at t u v offset) offset = v"
  using assms
proof (induction t arbitrary: u v offset)
  case (Unsigned n)
  from Unsigned.prems(2) obtain x where v: "v = VInt x" and x: "0 \<le> x" "x < 2 ^ (8 * n)"
    by (cases v) simp_all
  have "nat x < 256 ^ n" using x by (simp add: pow256 nat_less_iff)
  then show ?case
    using Unsigned.prems(3) x v by (simp add: interpret_write the_int_def)
next
  case (Signed n)
  from Signed.prems(2) obtain x where v: "v = VInt x"
    by (cases v) simp_all
  from Signed.prems(1) have n: "1 \<le> n" "n \<le> 8" by simp_all
  from Signed.prems(3) have inb: "offset + n \<le> length (m_raw_data u)" by simp
  show ?case
  proof (cases "m_signed_mode u")
    case ONE_COMPLEMENT
    with Signed.prems(2) v have x: "- (2 ^ (8 * n - 1)) < x" "x < 2 ^ (8 * n - 1)" by simp_all
    show ?thesis
      using ONE_COMPLEMENT v one_complement_roundtrip [OF n x]
        write_with_endianess_facts(2) [OF inb, where x = "interpret_to_one_complement x"]
      by (simp add: interpret_write [OF n(2) inb] the_int_def)
  next
    case TWO_COMPLEMENT
    with Signed.prems(2) v have x: "- (2 ^ (8 * n - 1)) \<le> x" "x < 2 ^ (8 * n - 1)" by simp_all
    show ?thesis
      using TWO_COMPLEMENT v two_complement_roundtrip [OF n x]
        write_with_endianess_facts(2) [OF inb, where x = "interpret_to_two_complement x"]
      by (simp add: interpret_write [OF n(2) inb] the_int_def)
  qed
next
  case (Array t k)
  from Array.prems(2) obtain vs where v: "v = VArr vs" and vs: "length vs = k"
    "list_all (has_type (m_signed_mode u) t) vs"
    by (cases v) simp_all
  from Array.prems(1) have okt: "ctype_ok t" by simp
  let ?sz = "sizeof t"
  let ?F = "\<lambda>i u'. write_at t u' (elem_at v i) (offset + i * ?sz)"
  have "j \<le> k \<Longrightarrow>
        m_endianess (fold ?F [0..<j] u) = m_endianess u
      \<and> m_signed_mode (fold ?F [0..<j] u) = m_signed_mode u
      \<and> length (m_raw_data (fold ?F [0..<j] u)) = length (m_raw_data u)
      \<and> (\<forall>i<j. interpret_as t (fold ?F [0..<j] u) (offset + i * ?sz) = vs ! i)" for j
  proof (induction j)
    case 0
    then show ?case by simp
  next
    case (Suc j)
    let ?U = "fold ?F [0..<j] u"
    let ?W = "write_at t ?U (elem_at v j) (offset + j * ?sz)"
    have jk: "j < k" using Suc.prems by simp
    from Suc.IH [OF less_imp_le [OF jk]]
    have ih: "m_endianess ?U = m_endianess u" "m_signed_mode ?U = m_signed_mode u"
      "length (m_raw_data ?U) = length (m_raw_data u)"
      "\<And>i. i < j \<Longrightarrow> interpret_as t ?U (offset + i * ?sz) = vs ! i"
      by simp_all
    have inb: "offset + j * ?sz + ?sz \<le> length (m_raw_data ?U)"
      using elem_range [OF jk, of offset ?sz] Array.prems(3) ih(3) by simp
    from write_at_frame [OF inb, of "elem_at v j"]
    have W: "m_endianess ?W = m_endianess ?U" "m_signed_mode ?W = m_signed_mode ?U"
      "length (m_raw_data ?W) = length (m_raw_data ?U)"
      "\<And>p. p < offset + j * ?sz \<or> offset + j * ?sz + ?sz \<le> p \<Longrightarrow>
          m_raw_data ?W ! p = m_raw_data ?U ! p"
      by blast+
    have ej: "elem_at v j = vs ! j" by (simp add: elem_at_def v)
    have tj: "has_type (m_signed_mode ?U) t (vs ! j)"
      using vs jk ih(2) by (simp add: list_all_length)
    have new: "interpret_as t ?W (offset + j * ?sz) = vs ! j"
      unfolding ej by (rule Array.IH [OF okt tj inb])
    have old: "interpret_as t ?W (offset + i * ?sz) = vs ! i" if "i < j" for i
    proof -
      have "interpret_as t ?W (offset + i * ?sz) = interpret_as t ?U (offset + i * ?sz)"
      proof (rule interpret_as_local)
        show "m_endianess ?W = m_endianess ?U" "m_signed_mode ?W = m_signed_mode ?U"
          by (rule W(1), rule W(2))
        fix p
        assume "offset + i * ?sz \<le> p" "p < offset + i * ?sz + ?sz"
        with elem_range [OF that, of offset ?sz] have "p < offset + j * ?sz" by simp
        then show "m_raw_data ?W ! p = m_raw_data ?U ! p" by (intro W(4)) simp
      qed
      with ih(4) [OF that] show ?thesis by simp
    qed
    have "\<forall>i<Suc j. interpret_as t ?W (offset + i * ?sz) = vs ! i"
      using new old by (auto simp: less_Suc_eq)
    with W(1,2,3) ih(1,2,3) show ?case by simp
  qed
  from this [of k] have "\<forall>i<k. interpret_as t (fold ?F [0..<k] u) (offset + i * ?sz) = vs ! i"
    by simp
  then have "map (\<lambda>i. interpret_as t (fold ?F [0..<k] u) (offset + i * ?sz)) [0..<k] = vs"
    using vs(1) by (intro nth_equalityI) simp_all
  then show ?case by (simp add: v)
qed

section \<open>Tuple layout\<close>








section \<open>Serialization round trip\<close>


lemma read_as_interpret_as:
  "read_as t e m sequence offset
   = interpret_as t \<lparr>m_raw_data = sequence, m_endianess = e, m_signed_mode = m\<rparr> offset"
proof (induction t arbitrary: offset)
  case (Unsigned n)
  have "from_endianess e n sequence offset n
      = interpret_with_endianess n \<lparr>m_raw_data = sequence, m_endianess = e, m_signed_mode = m\<rparr> offset n"
    unfolding from_endianess_def by (rule interpret_local) simp_all
  then show ?case by simp
next
  case (Signed n)
  have "from_endianess e 8 sequence offset n
      = interpret_with_endianess 8 \<lparr>m_raw_data = sequence, m_endianess = e, m_signed_mode = m\<rparr> offset n"
    unfolding from_endianess_def by (rule interpret_local) simp_all
  then show ?case
    by (cases m) (simp_all add: from_signed_mode_def)
next
  case (Array t k)
  then show ?case by simp
qed

lemma write_with_endianess_mode_irrelevant:
  "m_raw_data (write_with_endianess \<lparr>m_raw_data = s, m_endianess = e, m_signed_mode = m1\<rparr> x offset n)
   = m_raw_data (write_with_endianess \<lparr>m_raw_data = s, m_endianess = e, m_signed_mode = m2\<rparr> x offset n)"
proof -
  let ?F = "\<lambda>idx i (u' :: unaligned_data, x' :: nat).
      (u'\<lparr>m_raw_data := (m_raw_data u')[idx i := of_nat (x' AND 255)]\<rparr>, drop_bit 8 x')"
  have "m_raw_data (fst (fold (?F idx) [0..<j] (\<lparr>m_raw_data = s, m_endianess = e, m_signed_mode = m1\<rparr>, x)))
      = m_raw_data (fst (fold (?F idx) [0..<j] (\<lparr>m_raw_data = s, m_endianess = e, m_signed_mode = m2\<rparr>, x)))
     \<and> snd (fold (?F idx) [0..<j] (\<lparr>m_raw_data = s, m_endianess = e, m_signed_mode = m1\<rparr>, x))
      = snd (fold (?F idx) [0..<j] (\<lparr>m_raw_data = s, m_endianess = e, m_signed_mode = m2\<rparr>, x))" for j idx
    by (induction j) (simp_all add: case_prod_beta)
  then show ?thesis
    by (cases e) (simp_all add: write_with_endianess_def)
qed

lemma write_as_write_at:
  assumes "offset + sizeof t \<le> length sequence"
  shows "write_as t e m x sequence offset
   = m_raw_data (write_at t \<lparr>m_raw_data = sequence, m_endianess = e, m_signed_mode = m\<rparr> x offset)"
  using assms
proof (induction t arbitrary: x sequence offset)
  case (Unsigned n)
  show ?case
    by (simp add: to_endianess_def write_with_endianess_mode_irrelevant [of _ _ TWO_COMPLEMENT _ _ _ m])
next
  case (Signed n)
  show ?case
    by (cases m)
       (simp_all add: to_endianess_def to_signed_mode_def
          write_with_endianess_mode_irrelevant [of _ _ TWO_COMPLEMENT _ _ _ ONE_COMPLEMENT])
next
  case (Array t k)
  let ?u = "\<lparr>m_raw_data = sequence, m_endianess = e, m_signed_mode = m\<rparr>"
  let ?F = "\<lambda>i s. write_as t e m (elem_at x i) s (offset + i * sizeof t)"
  let ?G = "\<lambda>i u'. write_at t u' (elem_at x i) (offset + i * sizeof t)"
  have "j \<le> k \<Longrightarrow> fold ?G [0..<j] ?u
      = \<lparr>m_raw_data = fold ?F [0..<j] sequence, m_endianess = e, m_signed_mode = m\<rparr>
      \<and> length (fold ?F [0..<j] sequence) = length sequence" for j
  proof (induction j)
    case 0
    then show ?case by simp
  next
    case (Suc j)
    let ?s = "fold ?F [0..<j] sequence"
    have jk: "j < k" using Suc.prems by simp
    from Suc.IH [OF less_imp_le [OF jk]]
    have ih: "fold ?G [0..<j] ?u = \<lparr>m_raw_data = ?s, m_endianess = e, m_signed_mode = m\<rparr>"
      "length ?s = length sequence" by simp_all
    have inb: "offset + j * sizeof t + sizeof t \<le> length ?s"
      using elem_range [OF jk, of offset "sizeof t"] Array.prems ih(2) by simp
    have step: "write_as t e m (elem_at x j) ?s (offset + j * sizeof t)
        = m_raw_data (write_at t \<lparr>m_raw_data = ?s, m_endianess = e, m_signed_mode = m\<rparr>
             (elem_at x j) (offset + j * sizeof t))"
      by (rule Array.IH [OF inb])
    from write_at_frame [of "offset + j * sizeof t" t
        "\<lparr>m_raw_data = ?s, m_endianess = e, m_signed_mode = m\<rparr>" "elem_at x j"] inb
    have W: "m_endianess (write_at t \<lparr>m_raw_data = ?s, m_endianess = e, m_signed_mode = m\<rparr>
             (elem_at x j) (offset + j * sizeof t)) = e"
      "m_signed_mode (write_at t \<lparr>m_raw_data = ?s, m_endianess = e, m_signed_mode = m\<rparr>
             (elem_at x j) (offset + j * sizeof t)) = m"
      "length (m_raw_data (write_at t \<lparr>m_raw_data = ?s, m_endianess = e, m_signed_mode = m\<rparr>
             (elem_at x j) (offset + j * sizeof t))) = length ?s"
      by simp_all
    show ?case
      using ih step W by (simp add: unaligned_data.equality)
  qed
  from this [of k] show ?case by simp
qed

text \<open>
  C2. For both byte orders and both signed modes, and every value \<open>x\<close> of a serializable
  type \<open>T\<close> (unsigned integer, signed integer, or array of these, of 1 to 8 byte integers)
  that the signed mode has a pattern for, \<open>read_as\<close> of the bytes that \<open>write_as\<close> wrote
  returns \<open>x\<close>. The signed mode has a pattern for every value of \<open>T\<close>, but for the minimum
  \<open>- 2 ^ (8 n - 1)\<close> of a signed integer of \<open>n\<close> bytes in one's complement.
\<close>

theorem read_as_write_as:
  assumes "ctype_ok t" and "has_type m t x" and "offset + sizeof t \<le> length sequence"
  shows "read_as t e m (write_as t e m x sequence offset) offset = x"
proof -
  let ?u = "\<lparr>m_raw_data = sequence, m_endianess = e, m_signed_mode = m\<rparr>"
  from write_at_frame [of offset t ?u x] assms(3)
  have W: "m_endianess (write_at t ?u x offset) = e" "m_signed_mode (write_at t ?u x offset) = m"
    by simp_all
  have "read_as t e m (write_as t e m x sequence offset) offset
      = interpret_as t \<lparr>m_raw_data = m_raw_data (write_at t ?u x offset), m_endianess = e,
                        m_signed_mode = m\<rparr> offset"
    by (simp add: read_as_interpret_as write_as_write_at [OF assms(3)])
  also have "\<lparr>m_raw_data = m_raw_data (write_at t ?u x offset), m_endianess = e, m_signed_mode = m\<rparr>
      = write_at t ?u x offset"
    using W by (simp add: unaligned_data.equality)
  also have "interpret_as t (write_at t ?u x offset) offset = x"
    using assms by (intro interpret_as_write_at) simp_all
  finally show ?thesis .
qed



text \<open>
  The value that one's complement cannot hold: the minimum of a signed integer of \<open>n\<close>
  bytes is written with the pattern of the maximum, and read back as the maximum.
\<close>

lemma read_as_write_as_minimum:
  assumes "1 \<le> n" "n \<le> 8" "offset + n \<le> length sequence"
  shows "read_as (Signed n) e ONE_COMPLEMENT
           (write_as (Signed n) e ONE_COMPLEMENT (VInt (- (2 ^ (8 * n - 1)))) sequence offset) offset
         = VInt (2 ^ (8 * n - 1) - 1)"
proof -
  let ?u = "\<lparr>m_raw_data = sequence, m_endianess = e, m_signed_mode = ONE_COMPLEMENT\<rparr>"
  let ?x = "VInt (- (2 ^ (8 * n - 1)))"
  have inb: "offset + n \<le> length (m_raw_data ?u)" using assms(3) by simp
  have s: "offset + sizeof (Signed n) \<le> length sequence" using assms(3) by simp
  from write_at_frame [of offset "Signed n" ?u ?x] assms(3)
  have W: "m_endianess (write_at (Signed n) ?u ?x offset) = e"
    "m_signed_mode (write_at (Signed n) ?u ?x offset) = ONE_COMPLEMENT"
    by simp_all
  have "read_as (Signed n) e ONE_COMPLEMENT (write_as (Signed n) e ONE_COMPLEMENT ?x sequence offset) offset
      = interpret_as (Signed n) \<lparr>m_raw_data = m_raw_data (write_at (Signed n) ?u ?x offset),
          m_endianess = e, m_signed_mode = ONE_COMPLEMENT\<rparr> offset"
    by (simp only: read_as_interpret_as write_as_write_at [OF s])
  also have "\<lparr>m_raw_data = m_raw_data (write_at (Signed n) ?u ?x offset), m_endianess = e,
        m_signed_mode = ONE_COMPLEMENT\<rparr> = write_at (Signed n) ?u ?x offset"
    using W by (simp add: unaligned_data.equality)
  also have "interpret_as (Signed n) (write_at (Signed n) ?u ?x offset) offset = VInt (2 ^ (8 * n - 1) - 1)"
    using one_complement_minimum [OF assms(1,2)]
      write_with_endianess_facts(2) [OF inb, where x = "interpret_to_one_complement (- (2 ^ (8 * n - 1)))"]
    by (simp add: interpret_write [OF assms(2) inb] the_int_def)
  finally show ?thesis .
qed

text \<open>
  The claim as the spec words it, for every value of every type, fails there: \<open>-128\<close> is a
  value of the signed integer of one byte, and in one's complement, in either byte order,
  \<open>write_as\<close> gives it the byte of 127, which \<open>read_as\<close> returns as 127.
\<close>

theorem ones_complement_minimum_counterexample:
  "representable (Signed 1) (VInt (- 128))
   \<and> write_as (Signed 1) LITTLE ONE_COMPLEMENT (VInt (- 128)) [0] 0 = [127]
   \<and> read_as (Signed 1) LITTLE ONE_COMPLEMENT
        (write_as (Signed 1) LITTLE ONE_COMPLEMENT (VInt (- 128)) [0] 0) 0 = VInt 127
   \<and> write_as (Signed 1) BIG ONE_COMPLEMENT (VInt (- 128)) [0] 0 = [127]
   \<and> read_as (Signed 1) BIG ONE_COMPLEMENT
        (write_as (Signed 1) BIG ONE_COMPLEMENT (VInt (- 128)) [0] 0) 0 = VInt 127
   \<and> read_as (Signed 1) LITTLE ONE_COMPLEMENT
        (write_as (Signed 1) LITTLE ONE_COMPLEMENT (VInt (- 128)) [0] 0) 0 \<noteq> VInt (- 128)"
  by (simp add: representable_def to_endianess_def from_endianess_def to_signed_mode_def
        from_signed_mode_def write_with_endianess_def interpret_with_endianess_def
        interpret_to_one_complement_def interpret_from_one_complement_def the_int_def and_255)


section \<open>Dispatch\<close>

lemma fill_from_stream_getter:
  "fill_from (stream_getter f) n p = Some (map f [p..<p + n], p + n)"
proof (induction n arbitrary: p)
  case 0
  then show ?case by simp
next
  case (Suc n)
  have "[p..<p + Suc n] = p # [Suc p..<Suc p + n]"
    by (simp add: upt_conv_Cons)
  then show ?case
    using Suc [of "Suc p"] by (simp add: stream_getter_def)
qed

lemma get_index_stream_getter:
  "get_index d (stream_getter f) p
   = Some (decoded_index d (map f [p..<p + index_size d]), p + index_size d)"
  by (simp add: get_index_def decoded_index_def fill_from_stream_getter)

lemma length_insert_value:
  "length (insert_value e m t v dest) = length dest + sizeof t"
proof -
  let ?t0 = "tuple_default e m [t]"
  have "make_tuple e m [t] [v] = tuple_set 0 v ?t0"
    by (simp add: make_tuple_def lay_def tuple_default_def)
  moreover have "length (m_raw_data (m_storage (tuple_set 0 v ?t0))) = sizeof t"
    using write_at_frame [of 0 t "m_storage ?t0" v]
    by (simp add: tuple_set_def tuple_default_def field_offset_def)
  ultimately show ?thesis by (simp add: insert_value_def)
qed

text \<open>
  C3. \<open>dispatch\<close> on a byte stream first takes \<open>sizeof(index_t)\<close> bytes from the getter and
  returns the index they decode to, in range or not. In range, it takes \<open>input_size\<close> of
  the action further bytes and hands \<open>output_size\<close> of the action bytes to the putter,
  none for a \<open>void\<close> return; out of range, it calls neither again.
\<close>

theorem dispatch_conservation:
  "(let index = decoded_index d (map f [p..<p + index_size d])
    in if index < dsize d
       then \<exists>out. dispatch d (stream_getter f) p dest
                    = Some (index, p + index_size d + input_size (m_actions d ! index), dest @ out)
                \<and> length out = output_size (m_actions d ! index)
                \<and> (ret (m_actions d ! index) = None \<longrightarrow> out = [])
       else dispatch d (stream_getter f) p dest = Some (index, p + index_size d, dest))"
proof -
  let ?index = "decoded_index d (map f [p..<p + index_size d])"
  let ?a = "m_actions d ! ?index"
  have out: "dispatch d (stream_getter f) p dest = Some (?index, p + index_size d, dest)"
    if "\<not> ?index < dsize d"
    using that by (simp add: dispatch_def get_index_stream_getter)
  have inr: "\<exists>out. dispatch d (stream_getter f) p dest
                    = Some (?index, p + index_size d + input_size ?a, dest @ out)
                \<and> length out = output_size ?a \<and> (ret ?a = None \<longrightarrow> out = [])"
    if lt: "?index < dsize d"
  proof (cases "ret ?a")
    case None
    then have "dispatch d (stream_getter f) p dest
        = Some (?index, p + index_size d + input_size ?a, dest @ [])"
      using lt
      by (simp add: dispatch_def get_index_stream_getter call_def fill_from_stream_getter
            input_size_def Let_def)
    with None show ?thesis by (simp add: output_size_def)
  next
    case (Some t)
    let ?args = "\<lparr>typelist = params ?a,
           m_storage = \<lparr>m_raw_data = map f [p + index_size d..<p + index_size d + tuple_size (params ?a)],
                        m_endianess = d_endianess d, m_signed_mode = d_signed_mode d\<rparr>\<rparr>"
    let ?r = "m_raw_data (m_storage (make_tuple (d_endianess d) (d_signed_mode d) [t]
                [tuple_invoke ?args (ftor ?a)]))"
    have "dispatch d (stream_getter f) p dest
        = Some (?index, p + index_size d + input_size ?a, dest @ ?r)"
      using lt Some
      by (simp add: dispatch_def get_index_stream_getter call_def fill_from_stream_getter
            input_size_def Let_def insert_value_def)
    moreover have "length ?r = output_size ?a"
      using length_insert_value [of "d_endianess d" "d_signed_mode d" t _ "[]"] Some
      by (simp add: insert_value_def output_size_def)
    ultimately show ?thesis using Some by auto
  qed
  show ?thesis
    using out inr by (simp add: Let_def)
qed

section \<open>Dropped packets\<close>

text \<open>
  C7, as amended. When the byte that completes the index arrives and the index decodes to
  \<open>N\<close> or more, \<open>put\<close> returns \<open>DROPPED_PACKET\<close> and the state is that of a fresh
  dispatcher (index not loaded, \<open>load_count = sizeof(index_t)\<close>, \<open>ibuf_next = 0\<close>) with
  \<open>obuf_next\<close> and \<open>obuf_bottom\<close> untouched. A double buffered dispatcher's output buffer
  is untouched; a single buffered one's shared buffer holds the received byte at the old
  \<open>ibuf_next\<close> and is untouched elsewhere.
\<close>

theorem put_dropped:
  assumes "\<not> m_is_index_loaded s" and "m_load_count s = 1"
    and "ibuf_store (m_bufs s) (m_ibuf_next s) byte = Some bs"
    and "get_index d (buf_getter (ibuf bs)) 0 = Some (index, p)"
    and "dsize d \<le> index"
  shows "put d byte s =
           Some (DROPPED_PACKET,
                 \<lparr>m_is_index_loaded = False, m_load_count = index_size d, m_ibuf_next = 0,
                  m_obuf_next = m_obuf_next s, m_obuf_bottom = m_obuf_bottom s, m_bufs = bs\<rparr>)
         \<and> (case m_bufs s of
               Double_buf m_ibuf m_obuf \<Rightarrow> obuf bs = m_obuf
             | Single_buf m_buf \<Rightarrow> obuf bs = m_buf[m_ibuf_next s := byte])"
proof -
  have "put d byte s =
           Some (DROPPED_PACKET,
                 \<lparr>m_is_index_loaded = False, m_load_count = index_size d, m_ibuf_next = 0,
                  m_obuf_next = m_obuf_next s, m_obuf_bottom = m_obuf_bottom s, m_bufs = bs\<rparr>)"
    using assms by (simp add: put_def dec_size_t_def)
  moreover have "case m_bufs s of
               Double_buf m_ibuf m_obuf \<Rightarrow> obuf bs = m_obuf
             | Single_buf m_buf \<Rightarrow> obuf bs = m_buf[m_ibuf_next s := byte]"
    using assms(3) by (cases "m_bufs s") (auto split: if_splits)
  ultimately show ?thesis by simp
qed

text \<open>
  The claim as stated fails for the single buffered dispatcher, whose output buffer is its
  input buffer: the byte 5, an index out of range for the one action of S7, is stored in
  the shared array \<open>[0, 1]\<close> before the packet is dropped.
\<close>

theorem dropped_single_buffer_counterexample:
  "obuf (m_bufs (single_buffered_undispatcher S7_dispatcher of_nat)) = [0, 1]
   \<and> put S7_dispatcher 5 (single_buffered_undispatcher S7_dispatcher of_nat) =
       Some (DROPPED_PACKET,
             \<lparr>m_is_index_loaded = False, m_load_count = 1, m_ibuf_next = 0, m_obuf_next = 0,
              m_obuf_bottom = 0, m_bufs = Single_buf [5, 1]\<rparr>)"
  by (simp add: S7_single_fresh put_def dec_size_t_def S7_get_index S7_sizes)


section \<open>The older buffered dispatcher runs the order\<close>

text \<open>
  When the byte that completes the arguments arrives, \<open>k2o::buffered_dispatcher::read\<close>
  resets the input state, runs the order on the bytes that follow the index in the input
  buffer, stores what the order hands to the putter at the start of the output buffer and
  leaves \<open>m_obuf_bottom\<close> behind the last byte. In scenario S7 the request \<open>[00, 2A]\<close>
  stages the response \<open>[2A]\<close>.
\<close>

lemma obuf_put_all_fits:
  "bottom + length out \<le> length (obuf bs) \<Longrightarrow>
   \<exists>bs'. obuf_put_all bs bottom out = Some (bs', bottom + length out)
      \<and> length (obuf bs') = length (obuf bs)
      \<and> take (length out) (drop bottom (obuf bs')) = out
      \<and> take bottom (obuf bs') = take bottom (obuf bs)
      \<and> (\<forall>mi mo. bs = Double_buf mi mo \<longrightarrow> ibuf bs' = mi)"
proof (induction out arbitrary: bs bottom)
  case Nil
  then show ?case by auto
next
  case (Cons b out)
  then have lt: "bottom < length (obuf bs)" by simp
  obtain bs1 where s1: "obuf_store bs bottom b = Some bs1" "obuf bs1 = (obuf bs)[bottom := b]"
    "\<forall>mi mo. bs = Double_buf mi mo \<longrightarrow> bs1 = Double_buf mi (mo[bottom := b])"
    using lt by (cases bs) auto
  have "Suc bottom + length out \<le> length (obuf bs1)"
    using Cons.prems s1(2) by simp
  from Cons.IH [OF this] obtain bs' where
    r: "obuf_put_all bs1 (Suc bottom) out = Some (bs', Suc bottom + length out)"
      "length (obuf bs') = length (obuf bs1)"
      "take (length out) (drop (Suc bottom) (obuf bs')) = out"
      "take (Suc bottom) (obuf bs') = take (Suc bottom) (obuf bs1)"
      "\<forall>mi mo. bs1 = Double_buf mi mo \<longrightarrow> ibuf bs' = mi"
    by blast
  have lt': "bottom < length (obuf bs')" using r(2) s1(2) lt by simp
  have nth: "obuf bs' ! bottom = b"
  proof -
    have "obuf bs' ! bottom = take (Suc bottom) (obuf bs') ! bottom" by simp
    also have "\<dots> = take (Suc bottom) (obuf bs1) ! bottom" by (simp only: r(4))
    also have "\<dots> = b" using s1(2) lt by simp
    finally show ?thesis .
  qed
  have a: "take (length (b # out)) (drop bottom (obuf bs')) = b # out"
    using r(3) nth lt' by (simp add: Cons_nth_drop_Suc [symmetric])
  have "take bottom (obuf bs') = take bottom (take (Suc bottom) (obuf bs'))" by simp
  also have "\<dots> = take bottom (take (Suc bottom) (obuf bs1))" by (simp only: r(4))
  also have "\<dots> = take bottom (obuf bs)" using s1(2) by simp
  finally have c: "take bottom (obuf bs') = take bottom (obuf bs)" .
  have d: "\<forall>mi mo. bs = Double_buf mi mo \<longrightarrow> ibuf bs' = mi"
    using s1(3) r(5) by auto
  show ?case
    using s1(1,2) r(1,2) a c d by simp
qed

lemma k2o_get_index_eq: "k2o_get_index d src g = get_index d src g"
  by (simp add: k2o_get_index_def get_index_def read_as_interpret_as tuple_get_def
        field_offset_def cong: option.case_cong)

lemma k2o_read_resolves:
  assumes "m_is_index_loaded s" and "m_load_count s = 1"
    and "ibuf_store (m_bufs s) (m_ibuf_next s) byte = Some bs"
    and "k2o_get_index d (buf_getter (ibuf bs)) 0 = Some (index, ibuf_it)"
    and "index < dsize d"
    and "call (d_endianess d) (d_signed_mode d) (m_actions d ! index)
           (buf_getter (ibuf bs)) ibuf_it [] = Some (ibuf_it2, out)"
    and "length out \<le> length (obuf bs)"
  shows "\<exists>bs'. k2o_read d byte s =
             Some \<lparr>m_is_index_loaded = False, m_load_count = index_size d, m_ibuf_next = 0,
                   m_obuf_next = 0, m_obuf_bottom = length out, m_bufs = bs'\<rparr>
           \<and> take (length out) (obuf bs') = out"
proof -
  from obuf_put_all_fits [of 0 out bs] assms(7) obtain bs' where
    p: "obuf_put_all bs 0 out = Some (bs', length out)" "take (length out) (obuf bs') = out"
    by auto
  have "k2o_read d byte s =
             Some \<lparr>m_is_index_loaded = False, m_load_count = index_size d, m_ibuf_next = 0,
                   m_obuf_next = 0, m_obuf_bottom = length out, m_bufs = bs'\<rparr>"
    using assms(1-6) p(1) by (simp add: k2o_read_def dec_size_t_def)
  with p(2) show ?thesis by blast
qed


lemma S7_call:
  "call LITTLE TWO_COMPLEMENT \<lparr>params = [Unsigned 1], ret = Some (Unsigned 1), ftor = hd\<rparr>
     (buf_getter [0, b]) (Suc 0) [] = Some (2, [b])"
proof -
  have lt: "unat b < 256"
    using unsigned_less [of b, where ?'a = nat] by simp
  have args: "tuple_invoke
      \<lparr>typelist = [Unsigned (Suc 0)],
       m_storage = \<lparr>m_raw_data = [b], m_endianess = LITTLE, m_signed_mode = TWO_COMPLEMENT\<rparr>\<rparr> hd
      = VInt (int (unat b))"
    by (simp add: tuple_invoke_def tuple_get_def field_offset_def type_sizes_def
          interpret_with_endianess_def)
  have res: "insert_value LITTLE TWO_COMPLEMENT (Unsigned (Suc 0)) (VInt (int (unat b))) [] = [b]"
    using lt
    by (simp add: insert_value_def make_tuple_def lay_def tuple_default_def tuple_set_def
          field_offset_def type_sizes_def the_int_def write_with_endianess_def and_255)
  show ?thesis
    by (simp add: call_def buf_getter_def args res del: of_nat_unat)
qed

lemma k2o_read_S7:
  "k2o_read S7_dispatcher 0
     \<lparr>m_is_index_loaded = False, m_load_count = 1, m_ibuf_next = 0, m_obuf_next = 0,
      m_obuf_bottom = 0, m_bufs = Double_buf [0, 1] [0]\<rparr>
   = Some \<lparr>m_is_index_loaded = True, m_load_count = 1, m_ibuf_next = 1, m_obuf_next = 0,
           m_obuf_bottom = 0, m_bufs = Double_buf [0, 1] [0]\<rparr>
   \<and> k2o_read S7_dispatcher 42
     \<lparr>m_is_index_loaded = True, m_load_count = 1, m_ibuf_next = 1, m_obuf_next = 0,
      m_obuf_bottom = 0, m_bufs = Double_buf [0, 1] [0]\<rparr>
   = Some \<lparr>m_is_index_loaded = False, m_load_count = 1, m_ibuf_next = 0, m_obuf_next = 0,
           m_obuf_bottom = 1, m_bufs = Double_buf [0, 42] [42]\<rparr>"
proof -
  have a: "m_actions S7_dispatcher ! 0
      = \<lparr>params = [Unsigned 1], ret = Some (Unsigned 1), ftor = hd\<rparr>"
    "d_endianess S7_dispatcher = LITTLE" "d_signed_mode S7_dispatcher = TWO_COMPLEMENT"
    by (simp_all add: S7_dispatcher_def)
  show ?thesis
    by (simp add: k2o_read_def dec_size_t_def k2o_get_index_eq S7_get_index S7_sizes a(2,3)
          S7_call [unfolded a(1) [symmetric]])
qed

section \<open>Resolved packets\<close>

text \<open>
  C1. In scenario S7 (\<open>id(u8) -> u8\<close>) fed with the request \<open>[00, 2A]\<close>, the \<open>put\<close> of the
  byte that completes the arguments returns \<open>RESOLVED_PACKET\<close> and resets the input
  state, but \<open>obuf_bottom\<close> stays 0, the output buffer is as it was, and \<open>is_loaded\<close> is
  false: \<open>put\<close> never invokes the action, which the older \<open>read\<close> above does.
\<close>

theorem resolved_without_action:
  "puts S7_dispatcher [0] (double_buffered_undispatcher S7_dispatcher of_nat of_nat) =
     Some \<lparr>m_is_index_loaded = True, m_load_count = 1, m_ibuf_next = 1, m_obuf_next = 0,
           m_obuf_bottom = 0, m_bufs = Double_buf [0, 1] [0]\<rparr>
   \<and> put S7_dispatcher 42
        \<lparr>m_is_index_loaded = True, m_load_count = 1, m_ibuf_next = 1, m_obuf_next = 0,
         m_obuf_bottom = 0, m_bufs = Double_buf [0, 1] [0]\<rparr> =
       Some (RESOLVED_PACKET,
             \<lparr>m_is_index_loaded = False, m_load_count = 1, m_ibuf_next = 0, m_obuf_next = 0,
              m_obuf_bottom = 0, m_bufs = Double_buf [0, 42] [0]\<rparr>)
   \<and> \<not> is_loaded
        \<lparr>m_is_index_loaded = False, m_load_count = 1, m_ibuf_next = 0, m_obuf_next = 0,
         m_obuf_bottom = 0, m_bufs = Double_buf [0, 42] [0]\<rparr>"
  by (simp add: S7_double_fresh put_def dec_size_t_def S7_get_index S7_sizes is_loaded_def)


section \<open>Buffer sizes\<close>

text \<open>The input size and the single buffer's size are what the keyring needs.\<close>

lemma needed_input_buffer_size_max:
  "needed_input_buffer_size d = index_size d + max_of (map input_size (m_actions d))"
proof -
  have "(\<lambda>x. tuple_size (params x)) = input_size"
    by (rule ext) (simp add: input_size_def)
  then show ?thesis
    by (simp add: needed_input_buffer_size_def map_parameters_size_def signatures_t_def
          parameters_size_def comp_def)
qed

lemma buffer_size_max:
  "buffer_size d = max (needed_input_buffer_size d) (needed_output_buffer_size d)"
  by (simp add: buffer_size_def max_p_def max_def)

text \<open>
  C4. For the keyring with the one action \<open>widen(u8) -> u32\<close>,
  \<open>needed_output_buffer_size\<close> is 1, the size of the parameters, while the action's
  \<open>output_size\<close> (and the largest return-type size) is 4.
\<close>

theorem needed_output_buffer_size_widen:
  "needed_output_buffer_size widen_dispatcher = 1
   \<and> output_size (m_actions widen_dispatcher ! 0) = 4
   \<and> max_of (map return_type_size (signatures_t widen_dispatcher)) = 4
   \<and> output_buffer_size widen_dispatcher = 1"
  by (simp add: widen_dispatcher_def needed_output_buffer_size_def output_buffer_size_def
        signatures_t_def map_parameters_size_def parameters_size_def return_type_size_def
        output_size_def max_of_def tuple_size_def type_sizes_def)


section \<open>Reply\<close>

lemma write_to_drain:
  "m_obuf_next s \<le> m_obuf_bottom s \<Longrightarrow> m_obuf_bottom s \<le> length (obuf (m_bufs s)) \<Longrightarrow>
   write_to s = Some (take (m_obuf_bottom s - m_obuf_next s) (drop (m_obuf_next s) (obuf (m_bufs s))),
                      s\<lparr>m_obuf_next := m_obuf_bottom s\<rparr>)"
proof (induction "m_obuf_bottom s - m_obuf_next s" arbitrary: s)
  case 0
  then have "m_obuf_next s = m_obuf_bottom s" by simp
  then show ?case
    by (subst write_to.simps) (simp add: is_loaded_def)
next
  case (Suc n)
  let ?s1 = "s\<lparr>m_obuf_next := m_obuf_next s + 1\<rparr>"
  from Suc.hyps(2) Suc.prems have lt: "m_obuf_next s < m_obuf_bottom s"
    and inb: "m_obuf_next s < length (obuf (m_bufs s))" by simp_all
  have g: "get s = Some (obuf (m_bufs s) ! m_obuf_next s, ?s1)"
    using lt inb by (simp add: get_def is_loaded_def)
  have ih: "write_to ?s1 =
      Some (take (m_obuf_bottom ?s1 - m_obuf_next ?s1) (drop (m_obuf_next ?s1) (obuf (m_bufs ?s1))),
            ?s1\<lparr>m_obuf_next := m_obuf_bottom ?s1\<rparr>)"
    using Suc.hyps(2) Suc.prems lt by (intro Suc.hyps(1)) simp_all
  have sp: "take (m_obuf_bottom s - m_obuf_next s) (drop (m_obuf_next s) (obuf (m_bufs s)))
      = obuf (m_bufs s) ! m_obuf_next s
        # take (m_obuf_bottom s - Suc (m_obuf_next s)) (drop (Suc (m_obuf_next s)) (obuf (m_bufs s)))"
  proof -
    have d: "drop (m_obuf_next s) (obuf (m_bufs s))
        = obuf (m_bufs s) ! m_obuf_next s # drop (Suc (m_obuf_next s)) (obuf (m_bufs s))"
      using inb by (simp add: Cons_nth_drop_Suc)
    have c: "m_obuf_bottom s - m_obuf_next s = Suc (m_obuf_bottom s - Suc (m_obuf_next s))"
      using lt by simp
    show ?thesis by (subst d, subst c) simp
  qed
  show ?case
    using lt g ih sp by (subst write_to.simps) (simp add: is_loaded_def)
qed

text \<open>
  C9. \<open>reply\<close> returns false and changes nothing when \<open>obuf_next \<noteq> 0\<close> or the staged
  bytes do not fit the key's buffer (\<open>payload_length - sizeof index\<close>); otherwise it hands
  the key's request over a buffer that starts with the staged bytes to the output, leaves
  the output buffer drained (\<open>obuf_next = obuf_bottom\<close>) and returns true.
\<close>

theorem reply_spec:
  "(m_obuf_next s \<noteq> 0 \<or> k_payload_length k - k_index_size k < m_obuf_bottom s \<longrightarrow>
      reply k buf0 s output = Some (False, s, output))
   \<and> (m_obuf_next s = 0 \<and> m_obuf_bottom s \<le> k_payload_length k - k_index_size k
        \<and> m_obuf_bottom s \<le> length (obuf (m_bufs s)) \<longrightarrow>
      reply k buf0 s output =
        Some (True, s\<lparr>m_obuf_next := m_obuf_bottom s\<rparr>,
              output @ k_request k (take (m_obuf_bottom s) (obuf (m_bufs s))
                                    @ drop (m_obuf_bottom s) buf0)))"
proof (intro conjI impI)
  assume "m_obuf_next s \<noteq> 0 \<or> k_payload_length k - k_index_size k < m_obuf_bottom s"
  then show "reply k buf0 s output = Some (False, s, output)"
    by (auto simp: reply_def)
next
  assume a: "m_obuf_next s = 0 \<and> m_obuf_bottom s \<le> k_payload_length k - k_index_size k
        \<and> m_obuf_bottom s \<le> length (obuf (m_bufs s))"
  then have "write_to s = Some (take (m_obuf_bottom s) (obuf (m_bufs s)), s\<lparr>m_obuf_next := m_obuf_bottom s\<rparr>)"
    using write_to_drain [of s] by simp
  moreover have "length (take (m_obuf_bottom s) (obuf (m_bufs s))) = m_obuf_bottom s"
    using a by simp
  ultimately show "reply k buf0 s output =
        Some (True, s\<lparr>m_obuf_next := m_obuf_bottom s\<rparr>,
              output @ k_request k (take (m_obuf_bottom s) (obuf (m_bufs s))
                                    @ drop (m_obuf_bottom s) buf0))"
    using a by (simp add: reply_def del: length_take)
qed

section \<open>The theorems at the scenarios of the spec\<close>

lemma decoded_index_S3:
  "decoded_index S3_dispatcher [b0, b1] = unat b0 + 256 * unat b1"
proof -
  have e: "d_endianess S3_dispatcher = LITTLE" by (simp add: S3_dispatcher_def)
  have "interpret_with_endianess 2
          \<lparr>m_raw_data = [b0, b1], m_endianess = LITTLE, m_signed_mode = m\<rparr> 0 2
        = unat b0 + 256 * unat b1" for m
    by (simp add: interpret_digits byte_pos_def digits_value_def lessThan_Suc numeral_2_eq_2)
  then show ?thesis
    by (simp add: decoded_index_def tuple_get_def field_offset_def type_sizes_def S3_sizes
          the_int_def e nat_add_distrib nat_mult_distrib)
qed

lemma S3_get_index:
  "get_index S3_dispatcher (buf_getter [b0, b1]) 0 = Some (unat b0 + 256 * unat b1, 2)"
  using get_index_buf_getter [of S3_dispatcher "[b0, b1]"]
  by (simp add: S3_sizes decoded_index_S3)

theorem put_dropped_witness:
  "put S3_dispatcher 1
     \<lparr>m_is_index_loaded = False, m_load_count = 1, m_ibuf_next = 1, m_obuf_next = 0,
      m_obuf_bottom = 0, m_bufs = Double_buf [44, 1] []\<rparr>
   = Some (DROPPED_PACKET,
           \<lparr>m_is_index_loaded = False, m_load_count = 2, m_ibuf_next = 0, m_obuf_next = 0,
            m_obuf_bottom = 0, m_bufs = Double_buf [44, 1] []\<rparr>)"
  using put_dropped [of "\<lparr>m_is_index_loaded = False, m_load_count = 1, m_ibuf_next = 1, m_obuf_next = 0,
      m_obuf_bottom = 0, m_bufs = Double_buf [44, 1] []\<rparr>" 1 "Double_buf [44, 1] []" S3_dispatcher 300 2]
  by (simp add: S3_get_index S3_sizes)

theorem reply_spec_witness:
  "reply \<lparr>k_index_size = 1, k_payload_length = 4, k_request = (#) 3\<rparr> [7, 8, 9]
     \<lparr>m_is_index_loaded = False, m_load_count = 1, m_ibuf_next = 0, m_obuf_next = 1,
      m_obuf_bottom = 2, m_bufs = Double_buf [0] [4, 5]\<rparr> [9]
   = Some (False,
           \<lparr>m_is_index_loaded = False, m_load_count = 1, m_ibuf_next = 0, m_obuf_next = 1,
            m_obuf_bottom = 2, m_bufs = Double_buf [0] [4, 5]\<rparr>, [9])
   \<and> reply \<lparr>k_index_size = 1, k_payload_length = 4, k_request = (#) 3\<rparr> [7, 8, 9]
     \<lparr>m_is_index_loaded = False, m_load_count = 1, m_ibuf_next = 0, m_obuf_next = 0,
      m_obuf_bottom = 2, m_bufs = Double_buf [0] [4, 5]\<rparr> [9]
   = Some (True,
           \<lparr>m_is_index_loaded = False, m_load_count = 1, m_ibuf_next = 0, m_obuf_next = 2,
            m_obuf_bottom = 2, m_bufs = Double_buf [0] [4, 5]\<rparr>, [9, 3, 4, 5, 9])"
  using reply_spec [of "\<lparr>m_is_index_loaded = False, m_load_count = 1, m_ibuf_next = 0, m_obuf_next = 1,
      m_obuf_bottom = 2, m_bufs = Double_buf [0] [4, 5]\<rparr>"
      "\<lparr>k_index_size = 1, k_payload_length = 4, k_request = (#) 3\<rparr>" "[7, 8, 9]" "[9]"]
    reply_spec [of "\<lparr>m_is_index_loaded = False, m_load_count = 1, m_ibuf_next = 0, m_obuf_next = 0,
      m_obuf_bottom = 2, m_bufs = Double_buf [0] [4, 5]\<rparr>"
      "\<lparr>k_index_size = 1, k_payload_length = 4, k_request = (#) 3\<rparr>" "[7, 8, 9]" "[9]"]
  by simp


theorem read_as_write_as_witness:
  "read_as (Array (Signed 2) 2) BIG ONE_COMPLEMENT
     (write_as (Array (Signed 2) 2) BIG ONE_COMPLEMENT (VArr [VInt (- 2), VInt 300]) [0, 0, 0, 0] 0) 0
   = VArr [VInt (- 2), VInt 300]"
  using read_as_write_as [of "Array (Signed 2) 2" ONE_COMPLEMENT "VArr [VInt (- 2), VInt 300]" 0
      "[0, 0, 0, 0]" BIG]
  by simp

lemma S1_sizes:
  "dsize S1_dispatcher = 1" "index_size S1_dispatcher = 1"
  "input_size (m_actions S1_dispatcher ! 0) = 4" "output_size (m_actions S1_dispatcher ! 0) = 2"
  by (simp_all add: S1_dispatcher_def dsize_def index_size_def sizeof_index_t_def
        input_size_def output_size_def tuple_size_def type_sizes_def)

lemma S1_call:
  "call LITTLE TWO_COMPLEMENT
     \<lparr>params = [Unsigned 2, Unsigned 2], ret = Some (Unsigned 2), ftor = add_u16\<rparr>
     (stream_getter ((!) [0, 2, 0, 3, 0])) (Suc 0) [] = Some (5, [5, 0])"
proof -
  have sz: "tuple_size [Unsigned 2, Unsigned 2] = 4"
    by (simp add: tuple_size_def type_sizes_def)
  have fill: "fill_from (stream_getter ((!) [0, 2, 0, 3, 0])) 4 (Suc 0) = Some ([2, 0, 3, 0], 5)"
    using fill_from_stream_getter [of "(!) [0, 2, 0, 3, 0]" 4 "Suc 0"]
    by (simp add: upt_conv_Cons)
  have args: "tuple_invoke
      \<lparr>typelist = [Unsigned 2, Unsigned 2],
       m_storage = \<lparr>m_raw_data = [2, 0, 3, 0], m_endianess = LITTLE,
                    m_signed_mode = TWO_COMPLEMENT\<rparr>\<rparr> add_u16 = VInt 5"
    by (simp add: tuple_invoke_def tuple_get_def field_offset_def type_sizes_def add_u16_def
          the_int_def interpret_with_endianess_def upt_2 push_bit_eq_mult)
  have res: "insert_value LITTLE TWO_COMPLEMENT (Unsigned 2) (VInt 5) [] = [5, 0]"
    by (simp add: insert_value_def make_tuple_def lay_def tuple_default_def tuple_set_def
          field_offset_def type_sizes_def the_int_def write_with_endianess_def and_255 drop_bit_8
          upt_2 numeral_2_eq_2)
  show ?thesis
    by (simp add: call_def sz fill args res)
qed

lemma S1_response:
  "dispatch S1_dispatcher (stream_getter ((!) [0, 2, 0, 3, 0])) 0 [] = Some (0, 5, [5, 0])"
proof -
  have g: "get_index S1_dispatcher (stream_getter ((!) [0, 2, 0, 3, 0])) 0 = Some (0, 1)"
    by (simp add: get_index_stream_getter S1_sizes decoded_index_1)
  have a: "m_actions S1_dispatcher ! 0
      = \<lparr>params = [Unsigned 2, Unsigned 2], ret = Some (Unsigned 2), ftor = add_u16\<rparr>"
    "d_endianess S1_dispatcher = LITTLE" "d_signed_mode S1_dispatcher = TWO_COMPLEMENT"
    by (simp_all add: S1_dispatcher_def)
  show ?thesis
    by (simp add: dispatch_def g S1_sizes a S1_call)
qed

lemma S3_response:
  "dispatch S3_dispatcher (stream_getter ((!) [44, 1])) 0 [] = Some (300, 2, [])"
  by (simp add: dispatch_def get_index_stream_getter S3_sizes upt_2 decoded_index_S3)

theorem dispatch_conservation_witness:
  "dispatch S1_dispatcher (stream_getter ((!) [0, 2, 0, 3, 0])) 0 [] = Some (0, 5, [5, 0])
   \<and> dispatch S3_dispatcher (stream_getter ((!) [44, 1])) 0 [] = Some (300, 2, [])"
  using dispatch_conservation [of S1_dispatcher "(!) [0, 2, 0, 3, 0]" 0 "[]"]
    dispatch_conservation [of S3_dispatcher "(!) [44, 1]" 0 "[]"]
  by (simp add: S1_response S3_response)

end
